theory Spec2Isabelle
  imports Main "HOL-Library.Word"
begin

unbundle bit_operations_syntax

section \<open>The node-side egress-IP watcher (package node, egressip.go)\<close>

text \<open>
  This section embeds the revision of \<^verbatim>\<open>egressip.go\<close> that carries
  \<^verbatim>\<open>getMarkForVNID\<close> and the masquerade bit. The second copy of the file,
  \<^verbatim>\<open>pkg/network/node/egressip.go\<close>, is an earlier revision of the same code: it
  passes \<^verbatim>\<open>ipToHex(egressIP)\<close> where this one passes the mark, it sets the flow
  rules by \<^verbatim>\<open>UpdateNamespaceEgressRules\<close>, it lacks the line
  \<^verbatim>\<open>node.assignedIPs.Delete(egressIP)\<close> of \<^verbatim>\<open>deleteEgressIP\<close>, and its
  \<^verbatim>\<open>deleteNamespaceEgress\<close> reads \<^verbatim>\<open>ns.assignedIP\<close> again after the teardown.
  Its functions are embedded in a section of their own, with the suffix \<open>_old\<close>.
\<close>

subsection \<open>sets.String\<close>

text \<open>
  A \<^verbatim>\<open>sets.String\<close> is a Go map from string to the empty struct. It is modelled
  as a list of strings without duplicates. The order of the list is not observable in Go
  but through \<^verbatim>\<open>UnsortedList\<close>, whose order is the iteration order of the Go map: it
  is not fixed by the language, so it is a parameter here, a rank on the keys by which the
  elements are sorted. Every order of a duplicate-free list is the result of some rank.
\<close>

type_synonym sets_String = "string list"

definition NewString :: "string list \<Rightarrow> sets_String" where
  "NewString items = remdups items"

definition Has :: "sets_String \<Rightarrow> string \<Rightarrow> bool" where
  "Has s item = (item \<in> set s)"

definition Insert :: "sets_String \<Rightarrow> string \<Rightarrow> sets_String" where
  "Insert s item = (if item \<in> set s then s else s @ [item])"

definition Delete :: "sets_String \<Rightarrow> string \<Rightarrow> sets_String" where
  "Delete s item = filter (\<lambda>x. x \<noteq> item) s"

definition Difference :: "sets_String \<Rightarrow> sets_String \<Rightarrow> sets_String" where
  "Difference s1 s2 = filter (\<lambda>x. x \<notin> set s2) s1"

definition UnsortedList :: "(string \<Rightarrow> nat) \<Rightarrow> sets_String \<Rightarrow> string list" where
  "UnsortedList rank s = sort_key rank s"

subsection \<open>Data\<close>

record nodeEgress =
  nodeIP :: string
  requestedIPs :: sets_String
  assignedIPs :: sets_String

record namespaceEgress =
  vnid :: "32 word"
  requestedIP :: string
  assignedIP :: string
  ns_nodeIP :: string

text \<open>
  What the watcher does to the outside: the calls to the flow controller (\<^verbatim>\<open>eip.oc\<close>),
  to netlink, to the NAT rules (\<^verbatim>\<open>eip.iptables\<close>), and the tokens sent on
  \<^verbatim>\<open>testModeChan\<close>. The netlink calls carry the egress IP; the mask length that the
  code appends to it is a constant of the local interface.
\<close>

datatype call =
    TestModeChan string
  | AddrAdd string
  | AddrDel string
  | AddEgressIPRules string string
  | DeleteEgressIPRules string string
  | SetNamespaceEgressViaEgressIP "32 word" string string
  | SetNamespaceEgressNormal "32 word"
  | SetNamespaceEgressDropped "32 word"
  | UpdateNamespaceEgressRules "32 word" string string

datatype errno = EEXIST | EADDRNOTAVAIL | EOTHER

text \<open>The messages given to glog.\<close>

datatype logmsg =
    MultipleNodesClaiming string string string
  | MultipleNetNamespacesClaiming string "32 word" "32 word"
  | ErrorAssigning string
  | ErrorReleasing string
  | ErrorUpdatingRules
  | AlreadyExists string
  | NoSuchAddress string
  | IgnoringExtraEgressIPs "string list" string

text \<open>The errors that assignEgressIP and releaseEgressIP return.\<close>

datatype error =
    IsTheNodeIP string
  | CouldNotParse string
  | NotInLocalNetwork string
  | CouldNotAdd string
  | CouldNotDelete string
  | CouldNotAddRule
  | CouldNotDeleteRule

text \<open>What \<^verbatim>\<open>net.ParseIP(ip)\<close> makes of a string: nil, an address for which
  \<^verbatim>\<open>To4()\<close> is nil, or an address with the four bytes that \<^verbatim>\<open>To4()\<close> returns.\<close>

datatype parsedIP = NotAnIP | NotIPv4 | IPv4 "8 word" "8 word" "8 word" "8 word"

text \<open>
  The environment of one call: whether netlink.ParseAddr accepts the address, whether
  the local egress network contains it, the error (if any) that each backend call returns,
  the iteration order of the Go maps behind \<^verbatim>\<open>UnsortedList\<close>, and the result of
  net.ParseIP (which only the earlier revision calls, in \<^verbatim>\<open>ipToHex\<close>).
\<close>

record env =
  parseAddrOk :: "string \<Rightarrow> bool"
  localEgressNetContains :: "string \<Rightarrow> bool"
  result :: "call \<Rightarrow> errno option"
  mapOrder :: "string \<Rightarrow> nat"
  parseIP :: "string \<Rightarrow> parsedIP"

text \<open>
  The watcher. The four maps hold pointers; a pointer is an index into the store of
  the objects of its type (\<open>nodeObjs\<close>, \<open>nsObjs\<close>), and \<^verbatim>\<open>&nodeEgress{...}\<close>
  appends to the store. \<open>testMode\<close> is \<^verbatim>\<open>testModeChan != nil\<close>. \<open>calls\<close> and
  \<open>logs\<close> record, in order, the backend calls made and the messages logged.
\<close>

record egressIPWatcher =
  localIP :: string
  masqueradeBit :: "32 word"
  testMode :: bool
  nodesByNodeIP :: "string \<rightharpoonup> nat"
  nodesByEgressIP :: "string \<rightharpoonup> nat"
  namespacesByVNID :: "32 word \<rightharpoonup> nat"
  namespacesByEgressIP :: "string \<rightharpoonup> nat"
  nodeObjs :: "nodeEgress list"
  nsObjs :: "namespaceEgress list"
  calls :: "call list"
  logs :: "logmsg list"

text \<open>
  The constructor. \<open>mBit\<close> is the \<^verbatim>\<open>*int32\<close> argument, \<open>None\<close> for nil and
  otherwise the 32 bits of the number, which \<^verbatim>\<open>uint32(*masqueradeBit)\<close> reads
  unsigned; a shift by 32 or more gives 0 in Go as it does for \<open>push_bit\<close>. The
  third argument says whether the caller sets \<^verbatim>\<open>testModeChan\<close> afterwards, as the
  tests do.
\<close>

definition newEgressIPWatcher :: "string \<Rightarrow> 32 word option \<Rightarrow> bool \<Rightarrow> egressIPWatcher" where
  "newEgressIPWatcher lIP mBit test =
     \<lparr> localIP = lIP,
       masqueradeBit = (case mBit of None \<Rightarrow> 0 | Some b \<Rightarrow> push_bit (unat b) 1),
       testMode = test,
       nodesByNodeIP = Map.empty,
       nodesByEgressIP = Map.empty,
       namespacesByVNID = Map.empty,
       namespacesByEgressIP = Map.empty,
       nodeObjs = [],
       nsObjs = [],
       calls = [],
       logs = [] \<rparr>"

subsection \<open>getMarkForVNID\<close>

text \<open>
  \<open>markValue\<close> is the value of the variable \<^verbatim>\<open>vnid\<close> when getMarkForVNID reaches
  its return; the function returns it printed by \<^verbatim>\<open>fmt.Sprintf("0x%08x", vnid)\<close>.
\<close>

definition markValue :: "32 word \<Rightarrow> 32 word \<Rightarrow> 32 word" where
  "markValue vn mBit =
     (let v1 = (if vn = 0 then 0xff000000 else vn)
      in if v1 AND mBit \<noteq> 0 then (v1 OR 0x01000000) XOR mBit else v1)"

definition hexDigit :: "nat \<Rightarrow> char" where
  "hexDigit n = ''0123456789abcdef'' ! n"

definition hex08x :: "32 word \<Rightarrow> string" where
  "hex08x w = map (\<lambda>i. hexDigit (unat (drop_bit (4 * i) w AND 0xf))) [7, 6, 5, 4, 3, 2, 1, 0]"

definition getMarkForVNID :: "32 word \<Rightarrow> 32 word \<Rightarrow> string" where
  "getMarkForVNID vn mBit = ''0x'' @ hex08x (markValue vn mBit)"

subsection \<open>Backend calls, log messages, writes through a pointer\<close>

definition perform :: "call \<Rightarrow> egressIPWatcher \<Rightarrow> egressIPWatcher" where
  "perform c s = s\<lparr>calls := calls s @ [c]\<rparr>"

definition glog :: "logmsg \<Rightarrow> egressIPWatcher \<Rightarrow> egressIPWatcher" where
  "glog m s = s\<lparr>logs := logs s @ [m]\<rparr>"

definition updNode :: "nat \<Rightarrow> (nodeEgress \<Rightarrow> nodeEgress) \<Rightarrow> egressIPWatcher \<Rightarrow> egressIPWatcher" where
  "updNode nd f s = s\<lparr>nodeObjs := (nodeObjs s)[nd := f (nodeObjs s ! nd)]\<rparr>"

definition updNs :: "nat \<Rightarrow> (namespaceEgress \<Rightarrow> namespaceEgress) \<Rightarrow> egressIPWatcher \<Rightarrow> egressIPWatcher" where
  "updNs ns f s = s\<lparr>nsObjs := (nsObjs s)[ns := f (nsObjs s ! ns)]\<rparr>"

subsection \<open>assignEgressIP and releaseEgressIP\<close>

definition assignEgressIP ::
  "env \<Rightarrow> egressIPWatcher \<Rightarrow> string \<Rightarrow> string \<Rightarrow> error option \<times> egressIPWatcher" where
  "assignEgressIP e s egressIP mark =
     (if egressIP = localIP s then (Some (IsTheNodeIP egressIP), s)
      else if testMode s then (None, perform (TestModeChan (''claim '' @ egressIP)) s)
      else if \<not> parseAddrOk e egressIP then (Some (CouldNotParse egressIP), s)
      else if \<not> localEgressNetContains e egressIP then (Some (NotInLocalNetwork egressIP), s)
      else
        let s1 = perform (AddrAdd egressIP) s;
            err = result e (AddrAdd egressIP)
        in if err \<noteq> None \<and> err \<noteq> Some EEXIST then (Some (CouldNotAdd egressIP), s1)
           else
             let s2 = (if err = Some EEXIST then glog (AlreadyExists egressIP) s1 else s1);
                 s3 = perform (AddEgressIPRules egressIP mark) s2
             in if result e (AddEgressIPRules egressIP mark) \<noteq> None
                then (Some CouldNotAddRule, s3)
                else (None, s3))"

definition releaseEgressIP ::
  "env \<Rightarrow> egressIPWatcher \<Rightarrow> string \<Rightarrow> string \<Rightarrow> error option \<times> egressIPWatcher" where
  "releaseEgressIP e s egressIP mark =
     (if egressIP = localIP s then (None, s)
      else if testMode s then (None, perform (TestModeChan (''release '' @ egressIP)) s)
      else if \<not> parseAddrOk e egressIP then (Some (CouldNotParse egressIP), s)
      else
        let s1 = perform (AddrDel egressIP) s;
            err = result e (AddrDel egressIP)
        in if err \<noteq> None \<and> err \<noteq> Some EADDRNOTAVAIL then (Some (CouldNotDelete egressIP), s1)
           else
             let s2 = (if err = Some EADDRNOTAVAIL then glog (NoSuchAddress egressIP) s1 else s1);
                 s3 = perform (DeleteEgressIPRules egressIP mark) s2
             in if result e (DeleteEgressIPRules egressIP mark) \<noteq> None
                then (Some CouldNotDeleteRule, s3)
                else (None, s3))"

subsection \<open>maybeAddEgressIP and deleteEgressIP\<close>

definition maybeAddEgressIP :: "env \<Rightarrow> egressIPWatcher \<Rightarrow> string \<Rightarrow> egressIPWatcher" where
  "maybeAddEgressIP e s egressIP =
     (case namespacesByEgressIP s egressIP of
        None \<Rightarrow> s
      | Some ns \<Rightarrow>
          let mark = getMarkForVNID (vnid (nsObjs s ! ns)) (masqueradeBit s);
              (nIP, s1) =
                (case nodesByEgressIP s egressIP of
                   None \<Rightarrow> ('''', s)
                 | Some nd \<Rightarrow>
                     if Has (assignedIPs (nodeObjs s ! nd)) egressIP then ('''', s)
                     else
                       let s' = updNode nd (\<lambda>n. n\<lparr>assignedIPs := Insert (assignedIPs n) egressIP\<rparr>) s
                       in if nodeIP (nodeObjs s' ! nd) = localIP s'
                          then (case assignEgressIP e s' egressIP mark of
                                  (Some err, s'') \<Rightarrow> ('''', glog (ErrorAssigning egressIP) s'')
                                | (None, s'') \<Rightarrow> (nodeIP (nodeObjs s' ! nd), s''))
                          else (nodeIP (nodeObjs s' ! nd), s'))
          in if assignedIP (nsObjs s1 ! ns) \<noteq> egressIP \<or> ns_nodeIP (nsObjs s1 ! ns) \<noteq> nIP
             then
               let s2 = updNs ns (\<lambda>n. n\<lparr>assignedIP := egressIP, ns_nodeIP := nIP\<rparr>) s1;
                   c = SetNamespaceEgressViaEgressIP (vnid (nsObjs s2 ! ns)) (ns_nodeIP (nsObjs s2 ! ns)) mark;
                   s3 = perform c s2
               in if result e c \<noteq> None then glog ErrorUpdatingRules s3 else s3
             else s1)"

definition deleteEgressIP :: "env \<Rightarrow> egressIPWatcher \<Rightarrow> string \<Rightarrow> egressIPWatcher" where
  "deleteEgressIP e s egressIP =
     (case nodesByEgressIP s egressIP of
        None \<Rightarrow> s
      | Some nd \<Rightarrow>
         (case namespacesByEgressIP s egressIP of
            None \<Rightarrow> s
          | Some ns \<Rightarrow>
              let mark = getMarkForVNID (vnid (nsObjs s ! ns)) (masqueradeBit s);
                  s1 = (if nodeIP (nodeObjs s ! nd) = localIP s
                        then
                          let (err, s') = releaseEgressIP e s egressIP mark;
                              s'' = (if err \<noteq> None then glog (ErrorReleasing egressIP) s' else s')
                          in updNode nd (\<lambda>n. n\<lparr>assignedIPs := Delete (assignedIPs n) egressIP\<rparr>) s''
                        else s);
                  s2 = (if assignedIP (nsObjs s1 ! ns) = egressIP
                        then updNs ns (\<lambda>n. n\<lparr>assignedIP := '''', ns_nodeIP := ''''\<rparr>) s1
                        else s1);
                  c = (if requestedIP (nsObjs s2 ! ns) = ''''
                       then SetNamespaceEgressNormal (vnid (nsObjs s2 ! ns))
                       else SetNamespaceEgressDropped (vnid (nsObjs s2 ! ns)));
                  s3 = perform c s2
              in if result e c \<noteq> None then glog ErrorUpdatingRules s3 else s3))"

subsection \<open>updateNodeEgress\<close>

text \<open>The bodies of the two loops of updateNodeEgress; \<open>nd\<close> is the pointer \<^verbatim>\<open>node\<close>.\<close>

definition processNewEgressIP :: "env \<Rightarrow> nat \<Rightarrow> string \<Rightarrow> egressIPWatcher \<Rightarrow> egressIPWatcher" where
  "processNewEgressIP e nd ip s =
     (case nodesByEgressIP s ip of
        Some oldNode \<Rightarrow>
          glog (MultipleNodesClaiming ip (nodeIP (nodeObjs s ! nd)) (nodeIP (nodeObjs s ! oldNode))) s
      | None \<Rightarrow>
          maybeAddEgressIP e (s\<lparr>nodesByEgressIP := (nodesByEgressIP s)(ip \<mapsto> nd)\<rparr>) ip)"

definition processRemovedEgressIP :: "env \<Rightarrow> nat \<Rightarrow> string \<Rightarrow> egressIPWatcher \<Rightarrow> egressIPWatcher" where
  "processRemovedEgressIP e nd ip s =
     (if nodesByEgressIP s ip \<noteq> Some nd then s
      else
        let s1 = deleteEgressIP e s ip
        in s1\<lparr>nodesByEgressIP := (nodesByEgressIP s1)(ip := None)\<rparr>)"

definition updateNodeEgress ::
  "env \<Rightarrow> egressIPWatcher \<Rightarrow> string \<Rightarrow> string list \<Rightarrow> egressIPWatcher" where
  "updateNodeEgress e s nIP nodeEgressIPs =
     (if nodesByNodeIP s nIP = None \<and> nodeEgressIPs = [] then s
      else
        let (nd, s0) =
              (case nodesByNodeIP s nIP of
                 None \<Rightarrow>
                   (length (nodeObjs s),
                    s\<lparr>nodeObjs := nodeObjs s @
                         [\<lparr>nodeIP = nIP, requestedIPs = NewString [], assignedIPs = NewString []\<rparr>],
                       nodesByNodeIP := (nodesByNodeIP s)(nIP \<mapsto> length (nodeObjs s))\<rparr>)
               | Some nd \<Rightarrow>
                   (nd, if nodeEgressIPs = []
                        then s\<lparr>nodesByNodeIP := (nodesByNodeIP s)(nIP := None)\<rparr>
                        else s));
            oldRequestedIPs = requestedIPs (nodeObjs s0 ! nd);
            s1 = updNode nd (\<lambda>n. n\<lparr>requestedIPs := NewString nodeEgressIPs\<rparr>) s0;
            s2 = fold (processNewEgressIP e nd)
                   (UnsortedList (mapOrder e)
                      (Difference (requestedIPs (nodeObjs s1 ! nd)) oldRequestedIPs)) s1
        in fold (processRemovedEgressIP e nd)
             (UnsortedList (mapOrder e)
                (Difference oldRequestedIPs (requestedIPs (nodeObjs s2 ! nd)))) s2)"

subsection \<open>updateNamespaceEgress and deleteNamespaceEgress\<close>

definition updateNamespaceEgress ::
  "env \<Rightarrow> egressIPWatcher \<Rightarrow> 32 word \<Rightarrow> string \<Rightarrow> egressIPWatcher" where
  "updateNamespaceEgress e s vn egressIP =
     (let (ns, s0) =
            (case namespacesByVNID s vn of
               None \<Rightarrow>
                 (length (nsObjs s),
                  s\<lparr>nsObjs := nsObjs s @
                       [\<lparr>vnid = vn, requestedIP = '''', assignedIP = '''', ns_nodeIP = ''''\<rparr>],
                     namespacesByVNID := (namespacesByVNID s)(vn \<mapsto> length (nsObjs s))\<rparr>)
             | Some ns \<Rightarrow> (ns, s))
      in if requestedIP (nsObjs s0 ! ns) = egressIP then s0
         else
           (case namespacesByEgressIP s0 egressIP of
              Some oldNS \<Rightarrow>
                glog (MultipleNetNamespacesClaiming egressIP
                        (vnid (nsObjs s0 ! ns)) (vnid (nsObjs s0 ! oldNS))) s0
            | None \<Rightarrow>
                let s1 = (if assignedIP (nsObjs s0 ! ns) \<noteq> ''''
                          then
                            let t1 = deleteEgressIP e s0 egressIP;
                                t2 = t1\<lparr>namespacesByEgressIP := (namespacesByEgressIP t1)(egressIP := None)\<rparr>
                            in updNs ns (\<lambda>n. n\<lparr>assignedIP := '''', ns_nodeIP := ''''\<rparr>) t2
                          else s0);
                    s2 = updNs ns (\<lambda>n. n\<lparr>requestedIP := egressIP\<rparr>) s1;
                    s3 = s2\<lparr>namespacesByEgressIP := (namespacesByEgressIP s2)(egressIP \<mapsto> ns)\<rparr>
                in maybeAddEgressIP e s3 egressIP))"

definition deleteNamespaceEgress :: "env \<Rightarrow> egressIPWatcher \<Rightarrow> 32 word \<Rightarrow> egressIPWatcher" where
  "deleteNamespaceEgress e s vn =
     (case namespacesByVNID s vn of
        None \<Rightarrow> s
      | Some ns \<Rightarrow>
          let s1 = (if assignedIP (nsObjs s ! ns) \<noteq> ''''
                    then
                      let t0 = updNs ns (\<lambda>n. n\<lparr>requestedIP := ''''\<rparr>) s;
                          egressIP = assignedIP (nsObjs t0 ! ns);
                          t1 = deleteEgressIP e t0 egressIP
                      in t1\<lparr>namespacesByEgressIP := (namespacesByEgressIP t1)(egressIP := None)\<rparr>
                    else s)
          in s1\<lparr>namespacesByVNID := (namespacesByVNID s1)(vn := None)\<rparr>)"

subsection \<open>The two watch handlers\<close>

text \<open>
  The functions that watchHostSubnets and watchNetNamespaces hand to
  \<^verbatim>\<open>common.RunEventQueue\<close>, applied to one delta. Of the objects of package
  networkapi only the fields that the handlers read are kept.
\<close>

datatype DeltaType = Added | Updated | Deleted | Sync

record HostSubnet =
  HostIP :: string
  hs_EgressIPs :: "string list"

record NetNamespace =
  NetName :: string
  NetID :: "32 word"
  EgressIPs :: "string list"

definition watchHostSubnets ::
  "env \<Rightarrow> egressIPWatcher \<Rightarrow> DeltaType \<Rightarrow> HostSubnet \<Rightarrow> egressIPWatcher" where
  "watchHostSubnets e s deltaType hs =
     updateNodeEgress e s (HostIP hs) (if deltaType \<noteq> Deleted then hs_EgressIPs hs else [])"

definition watchNetNamespaces ::
  "env \<Rightarrow> egressIPWatcher \<Rightarrow> DeltaType \<Rightarrow> NetNamespace \<Rightarrow> egressIPWatcher" where
  "watchNetNamespaces e s deltaType netns =
     (case EgressIPs netns of
        ip # rest \<Rightarrow>
          if deltaType \<noteq> Deleted
          then
            let s1 = (if rest \<noteq> [] then glog (IgnoringExtraEgressIPs rest (NetName netns)) s else s)
            in updateNamespaceEgress e s1 (NetID netns) ip
          else deleteNamespaceEgress e s (NetID netns)
      | [] \<Rightarrow> deleteNamespaceEgress e s (NetID netns))"

text \<open>The states of the watcher: what the constructor returns, and what the handlers
  and the three locked operations make of a state.\<close>

inductive reachable :: "egressIPWatcher \<Rightarrow> bool" where
  reach_new: "reachable (newEgressIPWatcher lIP mBit test)"
| reach_node: "reachable s \<Longrightarrow> reachable (updateNodeEgress e s nIP ips)"
| reach_ns: "reachable s \<Longrightarrow> reachable (updateNamespaceEgress e s vn ip)"
| reach_del: "reachable s \<Longrightarrow> reachable (deleteNamespaceEgress e s vn)"
| reach_hs: "reachable s \<Longrightarrow> reachable (watchHostSubnets e s d hs)"
| reach_netns: "reachable s \<Longrightarrow> reachable (watchNetNamespaces e s d netns)"

section \<open>The earlier revision of the watcher (pkg/network/node/egressip.go)\<close>














section \<open>The master's node watcher (package ovssubnet)\<close>

record Subnet =
  NodeIP :: string
  SubnetIP :: string

record Node =
  Name :: string
  IP :: string

datatype EventType = ADDED | DELETED

record NodeEvent =
  ev_Type :: EventType
  ev_Node :: Node

text \<open>The calls that the controller makes to the subnet registry and to the subnet
  allocator.\<close>

datatype master_call =
    GetSubnet string
  | DeleteSubnet string
  | CreateSubnet string Subnet
  | GetNetwork
  | ReleaseNetwork string

datatype master_log =
    ErrorCreatingNetwork string
  | ErrorWritingSubnet string
  | ErrorFetchingSubnet string
  | ErrorParsingSubnet string string
  | ErrorDeletingSubnet string string
  | ErrorCreatingSubnet string string

text \<open>
  Modelled from the spec: the implementations of \<^verbatim>\<open>api.SubnetRegistry\<close> and of
  \<^verbatim>\<open>netutils.SubnetAllocator\<close> are not among the sources (only the registry's
  interface is). The registry is the external store of section 6, with Get, Create and
  Delete of subnet records keyed by node name: \<open>subnets\<close> is what it holds, and any of
  its calls may fail (\<open>registryFails\<close>). The allocator is a state of any type \<open>'a\<close>
  with the operations GetNetwork and ReleaseNetwork of section 4.2, given as parameters.
  A network (a \<^verbatim>\<open>*net.IPNet\<close>) is the string that its method String prints;
  \<open>parseCIDR\<close> is the network that \<^verbatim>\<open>net.ParseCIDR\<close> of the standard library
  returns for a string, \<open>None\<close> when it returns an error.
\<close>

record 'a OvsController =
  subnets :: "string \<rightharpoonup> Subnet"
  subnetAllocator :: 'a
  master_calls :: "master_call list"
  master_logs :: "master_log list"

record 'a master_env =
  registryFails :: "master_call \<Rightarrow> bool"
  allocGetNetwork :: "'a \<Rightarrow> (string \<times> 'a) option"
  allocReleaseNetwork :: "'a \<Rightarrow> string \<Rightarrow> 'a"
  parseCIDR :: "string \<Rightarrow> string option"

definition mcall :: "master_call \<Rightarrow> 'a OvsController \<Rightarrow> 'a OvsController" where
  "mcall c oc = oc\<lparr>master_calls := master_calls oc @ [c]\<rparr>"

definition mlog :: "master_log \<Rightarrow> 'a OvsController \<Rightarrow> 'a OvsController" where
  "mlog m oc = oc\<lparr>master_logs := master_logs oc @ [m]\<rparr>"

definition registry_GetSubnet ::
  "'a master_env \<Rightarrow> 'a OvsController \<Rightarrow> string \<Rightarrow> Subnet option \<times> 'a OvsController" where
  "registry_GetSubnet e oc nodeName =
     (if registryFails e (GetSubnet nodeName) then None else subnets oc nodeName,
      mcall (GetSubnet nodeName) oc)"

definition registry_DeleteSubnet ::
  "'a master_env \<Rightarrow> 'a OvsController \<Rightarrow> string \<Rightarrow> bool \<times> 'a OvsController" where
  "registry_DeleteSubnet e oc nodeName =
     (if registryFails e (DeleteSubnet nodeName) \<or> subnets oc nodeName = None
      then (True, mcall (DeleteSubnet nodeName) oc)
      else (False, mcall (DeleteSubnet nodeName) (oc\<lparr>subnets := (subnets oc)(nodeName := None)\<rparr>)))"

definition registry_CreateSubnet ::
  "'a master_env \<Rightarrow> 'a OvsController \<Rightarrow> string \<Rightarrow> Subnet \<Rightarrow> bool \<times> 'a OvsController" where
  "registry_CreateSubnet e oc nodeName sub =
     (if registryFails e (CreateSubnet nodeName sub)
      then (True, mcall (CreateSubnet nodeName sub) oc)
      else (False, mcall (CreateSubnet nodeName sub) (oc\<lparr>subnets := (subnets oc)(nodeName \<mapsto> sub)\<rparr>)))"

text \<open>AddNode and DeleteNode return whether they failed.\<close>

definition AddNode ::
  "'a master_env \<Rightarrow> 'a OvsController \<Rightarrow> string \<Rightarrow> string \<Rightarrow> bool \<times> 'a OvsController" where
  "AddNode e oc nodeName nIP =
     (case allocGetNetwork e (subnetAllocator oc) of
        None \<Rightarrow> (True, mlog (ErrorCreatingNetwork nodeName) (mcall GetNetwork oc))
      | Some (sn, al) \<Rightarrow>
          let oc1 = mcall GetNetwork (oc\<lparr>subnetAllocator := al\<rparr>)
          in if nIP = '''' \<or> nIP = ''127.0.0.1'' then (True, oc1)
             else
               (case registry_CreateSubnet e oc1 nodeName \<lparr>NodeIP = nIP, SubnetIP = sn\<rparr> of
                  (True, oc2) \<Rightarrow> (True, mlog (ErrorWritingSubnet nodeName) oc2)
                | (False, oc2) \<Rightarrow> (False, oc2)))"

definition DeleteNode ::
  "'a master_env \<Rightarrow> 'a OvsController \<Rightarrow> string \<Rightarrow> bool \<times> 'a OvsController" where
  "DeleteNode e oc nodeName =
     (case registry_GetSubnet e oc nodeName of
        (None, oc1) \<Rightarrow> (True, mlog (ErrorFetchingSubnet nodeName) oc1)
      | (Some sub, oc1) \<Rightarrow>
          (case parseCIDR e (SubnetIP sub) of
             None \<Rightarrow> (True, mlog (ErrorParsingSubnet nodeName (SubnetIP sub)) oc1)
           | Some ipnet \<Rightarrow>
               let oc2 = mcall (ReleaseNetwork ipnet)
                           (oc1\<lparr>subnetAllocator :=
                                  allocReleaseNetwork e (subnetAllocator oc1) ipnet\<rparr>)
               in registry_DeleteSubnet e oc2 nodeName))"

text \<open>What the loop of watchNodes does with one event received on \<^verbatim>\<open>nodeEvent\<close>.\<close>

definition watchNodes :: "'a master_env \<Rightarrow> 'a OvsController \<Rightarrow> NodeEvent \<Rightarrow> 'a OvsController" where
  "watchNodes e oc ev =
     (case ev_Type ev of
        ADDED \<Rightarrow>
          (case registry_GetSubnet e oc (Name (ev_Node ev)) of
             (None, oc1) \<Rightarrow> snd (AddNode e oc1 (Name (ev_Node ev)) (IP (ev_Node ev)))
           | (Some sub, oc1) \<Rightarrow>
               if NodeIP sub \<noteq> IP (ev_Node ev)
               then
                 (case registry_DeleteSubnet e oc1 (Name (ev_Node ev)) of
                    (True, oc2) \<Rightarrow> mlog (ErrorDeletingSubnet (Name (ev_Node ev)) (NodeIP sub)) oc2
                  | (False, oc2) \<Rightarrow>
                      let sub' = sub\<lparr>NodeIP := IP (ev_Node ev)\<rparr>
                      in (case registry_CreateSubnet e oc2 (Name (ev_Node ev)) sub' of
                            (True, oc3) \<Rightarrow>
                              mlog (ErrorCreatingSubnet (Name (ev_Node ev)) (NodeIP sub')) oc3
                          | (False, oc3) \<Rightarrow> oc3))
               else oc1)
      | DELETED \<Rightarrow> snd (DeleteNode e oc (Name (ev_Node ev))))"

section \<open>Invariants of the watcher\<close>

text \<open>\<open>only_io s t\<close>: the state \<open>t\<close> differs from \<open>s\<close> at most in the calls made and the
  messages logged.\<close>

definition only_io :: "egressIPWatcher \<Rightarrow> egressIPWatcher \<Rightarrow> bool" where
  "only_io s t =
     (localIP t = localIP s \<and> masqueradeBit t = masqueradeBit s \<and> testMode t = testMode s
      \<and> nodesByNodeIP t = nodesByNodeIP s \<and> nodesByEgressIP t = nodesByEgressIP s
      \<and> namespacesByVNID t = namespacesByVNID s
      \<and> namespacesByEgressIP t = namespacesByEgressIP s
      \<and> nodeObjs t = nodeObjs s \<and> nsObjs t = nsObjs s)"

text \<open>Every pointer held in one of the four maps points into the store.\<close>

definition ptr_ok :: "egressIPWatcher \<Rightarrow> bool" where
  "ptr_ok s =
     ((\<forall>k nd. nodesByNodeIP s k = Some nd \<longrightarrow> nd < length (nodeObjs s))
    \<and> (\<forall>ip nd. nodesByEgressIP s ip = Some nd \<longrightarrow> nd < length (nodeObjs s))
    \<and> (\<forall>v ns. namespacesByVNID s v = Some ns \<longrightarrow> ns < length (nsObjs s))
    \<and> (\<forall>ip ns. namespacesByEgressIP s ip = Some ns \<longrightarrow> ns < length (nsObjs s)))"

text \<open>
  A namespace object whose nodeIP is not empty is served: it is the registered
  claimant of its assignedIP among the namespaces, and the node registered for that IP
  has the IP among its assignedIPs and is the node of that nodeIP.
\<close>

definition served :: "egressIPWatcher \<Rightarrow> nat \<Rightarrow> bool" where
  "served s ns =
     (namespacesByEgressIP s (assignedIP (nsObjs s ! ns)) = Some ns
      \<and> (\<exists>nd. nodesByEgressIP s (assignedIP (nsObjs s ! ns)) = Some nd
             \<and> assignedIP (nsObjs s ! ns) \<in> set (assignedIPs (nodeObjs s ! nd))
             \<and> nodeIP (nodeObjs s ! nd) = ns_nodeIP (nsObjs s ! ns)))"

definition inv_served :: "egressIPWatcher \<Rightarrow> bool" where
  "inv_served s = (\<forall>ns < length (nsObjs s). ns_nodeIP (nsObjs s ! ns) \<noteq> '''' \<longrightarrow> served s ns)"

text \<open>
  The nodes map is keyed by the nodes' own IPs. A node registered for an egress IP
  requests that IP and is in the nodes map; inside updateNodeEgress this holds for all
  nodes but the one being updated, \<open>nd\<close>, whose registrations are for IPs of \<open>A\<close>.
\<close>

definition inv_nodes :: "egressIPWatcher \<Rightarrow> bool" where
  "inv_nodes s = (\<forall>k nd. nodesByNodeIP s k = Some nd \<longrightarrow> nodeIP (nodeObjs s ! nd) = k)"

definition inv_claims_except :: "nat \<Rightarrow> string set \<Rightarrow> egressIPWatcher \<Rightarrow> bool" where
  "inv_claims_except nd A s =
     (\<forall>ip nd'. nodesByEgressIP s ip = Some nd' \<longrightarrow>
        (if nd' = nd then ip \<in> A
         else ip \<in> set (requestedIPs (nodeObjs s ! nd'))
              \<and> nodesByNodeIP s (nodeIP (nodeObjs s ! nd')) = Some nd'))"

definition inv_claims :: "egressIPWatcher \<Rightarrow> bool" where
  "inv_claims s =
     (\<forall>ip nd. nodesByEgressIP s ip = Some nd \<longrightarrow>
        ip \<in> set (requestedIPs (nodeObjs s ! nd))
        \<and> nodesByNodeIP s (nodeIP (nodeObjs s ! nd)) = Some nd)"

text \<open>What the two loops of updateNodeEgress keep, besides the registrations.\<close>

definition loop_inv :: "nat \<Rightarrow> egressIPWatcher \<Rightarrow> bool" where
  "loop_inv nd s = (ptr_ok s \<and> nd < length (nodeObjs s) \<and> inv_served s \<and> inv_nodes s)"

definition inv :: "egressIPWatcher \<Rightarrow> bool" where
  "inv s = (ptr_ok s \<and> inv_served s \<and> inv_nodes s \<and> inv_claims s)"

section \<open>The calls of releaseEgressIP\<close>


section \<open>Environments and states for the examples\<close>

text \<open>An environment in which every backend call succeeds (of net.ParseIP, the
  results for the addresses of the examples), and the watcher of a node \<open>10.0.0.1\<close>, in
  test mode and not.\<close>

definition okEnv :: env where
  "okEnv = \<lparr> parseAddrOk = (\<lambda>_. True), localEgressNetContains = (\<lambda>_. True),
             result = (\<lambda>_. None), mapOrder = (\<lambda>_. 0),
             parseIP = (\<lambda>ip. if ip = ''10.0.0.5'' then IPv4 10 0 0 5
                             else if ip = ''10.0.0.9'' then IPv4 10 0 0 9
                             else NotAnIP) \<rparr>"

definition testWatcher :: egressIPWatcher where
  "testWatcher = newEgressIPWatcher ''10.0.0.1'' None True"

definition realWatcher :: egressIPWatcher where
  "realWatcher = newEgressIPWatcher ''10.0.0.1'' (Some 0) False"


definition servedFoo :: egressIPWatcher where
  "servedFoo = updateNamespaceEgress okEnv
                 (updateNodeEgress okEnv testWatcher ''10.0.0.1'' [''10.0.0.5'']) 7 ''10.0.0.5''"

text \<open>Node \<open>10.0.0.1\<close>, the local node, claims \<open>10.0.0.5\<close>; namespace 7 requests
  \<open>10.0.0.5\<close>; then namespace 7 requests \<open>10.0.0.6\<close> instead.\<close>

definition nodeA_claims :: egressIPWatcher where
  "nodeA_claims = updateNodeEgress okEnv realWatcher ''10.0.0.1'' [''10.0.0.5'']"

definition foo_served :: egressIPWatcher where
  "foo_served = updateNamespaceEgress okEnv nodeA_claims 7 ''10.0.0.5''"

definition foo_changed :: egressIPWatcher where
  "foo_changed = updateNamespaceEgress okEnv foo_served 7 ''10.0.0.6''"



text \<open>The local node \<open>10.0.0.1\<close> claims its own IP as an egress IP, and namespace 7
  requests it, in the two orders.\<close>

definition selfIP_node_first :: egressIPWatcher where
  "selfIP_node_first =
     updateNamespaceEgress okEnv
       (updateNodeEgress okEnv realWatcher ''10.0.0.1'' [''10.0.0.1'']) 7 ''10.0.0.1''"

definition selfIP_ns_first :: egressIPWatcher where
  "selfIP_ns_first =
     updateNodeEgress okEnv
       (updateNamespaceEgress okEnv realWatcher 7 ''10.0.0.1'') ''10.0.0.1'' [''10.0.0.1'']"

text \<open>The backend calls by which assignEgressIP assigns an IP locally: the netlink
  call, the NAT rule, and in test mode the claim token.\<close>

fun assigns :: "string \<Rightarrow> call \<Rightarrow> bool" where
  "assigns ip (AddrAdd x) = (x = ip)"
| "assigns ip (AddEgressIPRules x m) = (x = ip)"
| "assigns ip (TestModeChan tok) = (tok = ''claim '' @ ip)"
| "assigns ip (AddrDel x) = False"
| "assigns ip (DeleteEgressIPRules x m) = False"
| "assigns ip (SetNamespaceEgressViaEgressIP v n m) = False"
| "assigns ip (SetNamespaceEgressNormal v) = False"
| "assigns ip (SetNamespaceEgressDropped v) = False"
| "assigns ip (UpdateNamespaceEgressRules v n h) = False"

text \<open>\<open>quiet ip a s t\<close>: from \<open>s\<close> to \<open>t\<close> calls and log have only grown, no call
  assigns \<open>ip\<close> locally, and the node object \<open>a\<close> is as it was.\<close>

definition quiet :: "string \<Rightarrow> nat \<Rightarrow> egressIPWatcher \<Rightarrow> egressIPWatcher \<Rightarrow> bool" where
  "quiet ip a s t =
     ((\<exists>cs. calls t = calls s @ cs \<and> list_all (\<lambda>c. \<not> assigns ip c) cs)
      \<and> (\<exists>l. logs t = logs s @ l)
      \<and> nodeObjs t ! a = nodeObjs s ! a)"

text \<open>Node \<open>10.0.0.2\<close> claims \<open>10.0.0.5\<close> after the local node \<open>10.0.0.1\<close> has.\<close>

definition nodeB_rejected :: egressIPWatcher where
  "nodeB_rejected = updateNodeEgress okEnv nodeA_claims ''10.0.0.2'' [''10.0.0.5'']"

text \<open>A master whose registry holds the subnet \<open>10.1.2.0/24\<close> of \<open>node1\<close>, recorded
  with the IP \<open>192.168.0.1\<close>; an environment in which the registry never fails and the
  allocator, a counter, hands out \<open>10.1.0.0/24\<close>; and the event that \<open>node1\<close> was
  added with the IP \<open>192.168.0.2\<close>.\<close>

definition okMasterEnv :: "nat master_env" where
  "okMasterEnv = \<lparr> registryFails = (\<lambda>_. False),
                    allocGetNetwork = (\<lambda>a. Some (''10.1.0.0/24'', Suc a)),
                    allocReleaseNetwork = (\<lambda>a _. a),
                    parseCIDR = (\<lambda>c. Some c) \<rparr>"

definition master1 :: "nat OvsController" where
  "master1 = \<lparr> subnets = [''node1'' \<mapsto> \<lparr>NodeIP = ''192.168.0.1'', SubnetIP = ''10.1.2.0/24''\<rparr>],
                subnetAllocator = 3, master_calls = [], master_logs = [] \<rparr>"

definition node1_readded :: NodeEvent where
  "node1_readded = \<lparr> ev_Type = ADDED, ev_Node = \<lparr>Name = ''node1'', IP = ''192.168.0.2''\<rparr> \<rparr>"









section \<open>The iteration order of a set\<close>

text \<open>Every order of the elements of a set is an \<^verbatim>\<open>UnsortedList\<close> of it, for some
  rank: the rank of an element is its position in the order wanted.\<close>

lemma position_nth:
  assumes "distinct ys" "i < length ys"
  shows "length (takeWhile (\<lambda>y. y \<noteq> ys ! i) ys) = i"
proof -
  have "takeWhile (\<lambda>y. y \<noteq> ys ! i) ys = take i ys"
    by (rule takeWhile_eq_take_P_nth) (use assms in \<open>auto simp add: nth_eq_iff_index_eq\<close>)
  then show ?thesis using assms(2) by simp
qed

lemma UnsortedList_any_order:
  assumes "distinct s" "distinct ys" "set ys = set s"
  shows "\<exists>rank. UnsortedList rank s = ys"
proof -
  define rank where "rank x = length (takeWhile (\<lambda>y. y \<noteq> x) ys)" for x
  have pos: "map rank ys = [0..<length ys]"
    by (rule nth_equalityI) (simp_all add: rank_def position_nth [OF assms(2)])
  have inj: "inj_on rank (set ys)"
  proof (rule inj_onI)
    fix x y assume "x \<in> set ys" "y \<in> set ys" "rank x = rank y"
    then obtain i j where "i < length ys" "ys ! i = x" "j < length ys" "ys ! j = y"
      by (auto simp add: in_set_conv_nth)
    then show "x = y"
      using \<open>rank x = rank y\<close> position_nth [OF assms(2)] by (auto simp add: rank_def)
  qed
  have "sort_key rank s = ys"
  proof (rule map_sorted_distinct_set_unique [where f = rank])
    show "inj_on rank (set (sort_key rank s) \<union> set ys)" using inj assms(3) by simp
    show "sorted (map rank (sort_key rank s))" by simp
    show "distinct (map rank (sort_key rank s))"
      using inj assms(1,3) by (simp add: distinct_map)
    show "sorted (map rank ys)" unfolding pos by simp
    show "distinct (map rank ys)" unfolding pos by simp
    show "set (sort_key rank s) = set ys" using assms(3) by simp
  qed
  then show ?thesis unfolding UnsortedList_def by blast
qed


section \<open>Properties of getMarkForVNID\<close>

lemma vnid_hi_clear:
  assumes "vn \<le> (0xffffff::32 word)" "24 \<le> n"
  shows "\<not> bit vn n"
proof -
  have "vn < 2 ^ 24" using assms(1) by (simp add: word_le_nat_alt word_less_nat_alt)
  then have "vn AND mask 24 = vn" by (rule less_mask_eq)
  then have "bit vn n = bit (vn AND mask 24) n" by simp
  then show ?thesis using assms(2) by (simp add: bit_simps)
qed

lemma c_ff: "(0xff000000::32 word) = push_bit 24 (mask 8)"
  by (simp add: mask_eq_exp_minus_1 push_bit_eq_mult)

lemma c_01: "(0x01000000::32 word) = 2 ^ 24"
  by simp

lemma bit_ff: "bit (push_bit 24 (mask 8) :: 32 word) n = (24 \<le> n \<and> n < 32)"
  by (auto simp add: bit_simps)

lemma bit_01: "bit (2 ^ 24 :: 32 word) n = (n = 24)"
  by (simp only: bit_exp_iff possible_bit_word) auto

lemma bit_lt_32: "bit (w::32 word) n \<Longrightarrow> n < 32"
  using bit_imp_le_length [of w n] by simp

lemma bit_mBit: "bit (push_bit b 1 :: 32 word) n = (n = b \<and> b < 32)"
  by (auto simp add: bit_simps)

lemma and_mBit: "(v AND push_bit b 1 \<noteq> 0) = bit (v::32 word) b"
  by (simp add: push_bit_of_1 and_exp_eq_0_iff_not_bit)

lemma markValue_alt:
  "markValue vn (push_bit b 1) =
     (let v1 = (if vn = 0 then push_bit 24 (mask 8) else vn)
      in if bit v1 b then (v1 OR 2 ^ 24) XOR push_bit b 1 else v1)"
  unfolding markValue_def c_ff c_01 and_mBit ..

text \<open>The bits of the mark, one by one.\<close>

lemma bit_markValue:
  "bit (markValue vn (push_bit b 1)) n =
    (if vn = 0 then 24 \<le> n \<and> n < 32 \<and> n \<noteq> b
     else if bit vn b then (bit vn n \<or> n = 24) \<and> n \<noteq> b else bit vn n)"
  unfolding markValue_alt Let_def
  by (auto simp only: bit_xor_iff bit_or_iff bit_ff bit_01 bit_mBit split: if_splits dest: bit_lt_32)

lemma markValue_nonzero:
  assumes "vn \<le> 0xffffff"
  shows "markValue vn (push_bit b 1) \<noteq> 0"
proof (cases "vn = 0")
  case True
  have "bit (markValue vn (push_bit b 1)) 24 \<or> bit (markValue vn (push_bit b 1)) 25"
    unfolding bit_markValue using True by auto
  then show ?thesis by auto
next
  case False
  then obtain k where k: "bit vn k" by (auto simp add: bit_eq_iff)
  show ?thesis
  proof (cases "bit vn b")
    case True
    then have "bit (markValue vn (push_bit b 1)) 24"
      unfolding bit_markValue using False vnid_hi_clear [OF assms, of b] by auto
    then show ?thesis by auto
  next
    case nb: False
    then have "bit (markValue vn (push_bit b 1)) k"
      unfolding bit_markValue using False k by auto
    then show ?thesis by auto
  qed
qed

lemma markValue_mBit_clear:
  "markValue vn (push_bit b 1) AND push_bit b 1 = 0"
  by (rule bit_word_eqI) (auto simp only: bit_and_iff bit_markValue bit_mBit bit_0_eq split: if_splits)

lemma markValue_inj:
  assumes "vn \<le> 0xffffff" "vn' \<le> 0xffffff"
    and eq: "markValue vn (push_bit b 1) = markValue vn' (push_bit b 1)"
  shows "vn = vn'"
proof -
  have B: "\<And>n. bit (markValue vn (push_bit b 1)) n = bit (markValue vn' (push_bit b 1)) n"
    using eq by simp
  note h = vnid_hi_clear [OF assms(1)] vnid_hi_clear [OF assms(2)]
  show ?thesis
  proof (rule bit_word_eqI)
    fix n assume "n < LENGTH(32)"
    show "bit vn n = bit vn' n"
      using B [of n] B [of 24] B [of 25] B [of 26] B [of b] h [of n] h [of 24] h [of 25] h [of 26] h [of b]
      unfolding bit_markValue
      by (auto split: if_splits)
  qed
qed

text \<open>Printing with \<^verbatim>\<open>%08x\<close> loses nothing: the eight digits give the 32 bits back.\<close>

lemma hexDigit_inj:
  assumes "a < 16" "b < 16" "hexDigit a = hexDigit b"
  shows "a = b"
proof -
  have d: "distinct ''0123456789abcdef''" by simp
  have l: "length ''0123456789abcdef'' = 16" by simp
  show ?thesis
    using assms nth_eq_iff_index_eq [OF d, of a b] unfolding hexDigit_def l by simp
qed

lemma nibble_less: "unat (drop_bit k w AND (0xf::32 word)) < 16"
proof -
  have "drop_bit k w AND (0xf::32 word) \<le> 0xf" by (rule word_and_le1)
  then show ?thesis by (simp add: word_le_nat_alt)
qed

lemma bit_nibble:
  "j < 4 \<Longrightarrow> bit (drop_bit (4 * i) w AND (0xf::32 word)) j = bit w (4 * i + j)"
proof -
  assume j: "j < 4"
  have m: "(0xf::32 word) = mask 4" by (simp add: mask_eq_exp_minus_1)
  show ?thesis unfolding m using j by (simp add: bit_simps)
qed

lemma hex08x_inj:
  assumes "hex08x w = hex08x w'"
  shows "w = w'"
proof (rule bit_word_eqI)
  fix n assume n: "n < LENGTH(32)"
  have all: "\<forall>i \<in> set [7, 6, 5, 4, 3, 2, 1, 0::nat].
      hexDigit (unat (drop_bit (4 * i) w AND 0xf)) = hexDigit (unat (drop_bit (4 * i) w' AND 0xf))"
    using assms unfolding hex08x_def by (simp only: map_eq_conv)
  have "n div 4 \<in> set [7, 6, 5, 4, 3, 2, 1, 0::nat]" using n by simp arith
  then have "hexDigit (unat (drop_bit (4 * (n div 4)) w AND 0xf))
      = hexDigit (unat (drop_bit (4 * (n div 4)) w' AND 0xf))"
    using all by blast
  then have "unat (drop_bit (4 * (n div 4)) w AND 0xf) = unat (drop_bit (4 * (n div 4)) w' AND 0xf)"
    by (rule hexDigit_inj [OF nibble_less nibble_less])
  then have "drop_bit (4 * (n div 4)) w AND 0xf = drop_bit (4 * (n div 4)) w' AND 0xf"
    by (rule word_unat_eq_iff [THEN iffD2])
  then have "bit (drop_bit (4 * (n div 4)) w AND 0xf) (n mod 4)
      = bit (drop_bit (4 * (n div 4)) w' AND 0xf) (n mod 4)" by simp
  then show "bit w n = bit w' n"
    by (simp add: bit_nibble)
qed

lemma hex08x_zero: "hex08x 0 = ''00000000''"
  by (simp add: hex08x_def hexDigit_def)

text \<open>
  C6. For a masquerade bit \<open>1 << b\<close> and a VNID of at most \<open>2^24 - 1\<close>, the value that
  getMarkForVNID prints is not zero and has the masquerade bit clear, the string it
  returns is not that of zero, and no other VNID of that range gets the same string.
\<close>

theorem getMarkForVNID_nonzero_clear_unique:
  assumes "vn \<le> 0xffffff"
  shows "markValue vn (push_bit b 1) \<noteq> 0
       \<and> markValue vn (push_bit b 1) AND push_bit b 1 = 0
       \<and> getMarkForVNID vn (push_bit b 1) \<noteq> ''0x00000000''
       \<and> (\<forall>vn'. vn' \<le> 0xffffff \<and> vn' \<noteq> vn
             \<longrightarrow> getMarkForVNID vn' (push_bit b 1) \<noteq> getMarkForVNID vn (push_bit b 1))"
proof -
  have nz: "markValue vn (push_bit b 1) \<noteq> 0" by (rule markValue_nonzero [OF assms])
  have "hex08x (markValue vn (push_bit b 1)) \<noteq> hex08x 0"
    using nz hex08x_inj by blast
  then have s: "getMarkForVNID vn (push_bit b 1) \<noteq> ''0x00000000''"
    by (simp add: getMarkForVNID_def hex08x_zero)
  have u: "getMarkForVNID vn' (push_bit b 1) \<noteq> getMarkForVNID vn (push_bit b 1)"
    if "vn' \<le> 0xffffff" "vn' \<noteq> vn" for vn'
  proof
    assume "getMarkForVNID vn' (push_bit b 1) = getMarkForVNID vn (push_bit b 1)"
    then have "markValue vn' (push_bit b 1) = markValue vn (push_bit b 1)"
      by (simp add: getMarkForVNID_def hex08x_inj)
    then show False using markValue_inj [OF that(1) assms] that(2) by simp
  qed
  show ?thesis using nz s u markValue_mBit_clear by blast
qed

theorem getMarkForVNID_nonzero_clear_unique_witness:
  "(7::32 word) \<le> 0xffffff
   \<and> markValue 7 (push_bit 0 1) = 0x01000006
   \<and> markValue 7 (push_bit 0 1) \<noteq> 0
   \<and> markValue 7 (push_bit 0 1) AND push_bit 0 1 = 0
   \<and> getMarkForVNID 7 (push_bit 0 1) = ''0x01000006''
   \<and> getMarkForVNID 6 (push_bit 0 1) \<noteq> getMarkForVNID 7 (push_bit 0 1)"
proof -
  have h: "(7::32 word) \<le> 0xffffff" by simp
  have v: "markValue 7 (push_bit 0 1) = 0x01000006" by (simp add: markValue_def)
  have g: "getMarkForVNID 7 (push_bit 0 1) = ''0x01000006''"
    by (simp add: getMarkForVNID_def markValue_def hex08x_def hexDigit_def drop_bit_eq_div)
  have "(6::32 word) \<le> 0xffffff \<and> (6::32 word) \<noteq> 7" by simp
  then show ?thesis
    using h v g getMarkForVNID_nonzero_clear_unique [OF h, of 0] by blast
qed

section \<open>assignEgressIP and releaseEgressIP on the node's own IP\<close>

text \<open>
  C8, as the code has it. On the node's own primary IP assignEgressIP returns an error
  and releaseEgressIP returns nil; neither makes a backend call, logs, or changes the
  watcher.
\<close>

theorem egressIP_is_localIP:
  "assignEgressIP e s (localIP s) mark = (Some (IsTheNodeIP (localIP s)), s)
   \<and> releaseEgressIP e s (localIP s) mark = (None, s)"
  by (simp add: assignEgressIP_def releaseEgressIP_def)

theorem egressIP_is_localIP_witness:
  "assignEgressIP okEnv realWatcher ''10.0.0.1'' ''0x00000007''
     = (Some (IsTheNodeIP ''10.0.0.1''), realWatcher)
   \<and> releaseEgressIP okEnv realWatcher ''10.0.0.1'' ''0x00000007'' = (None, realWatcher)"
proof -
  have l: "localIP realWatcher = ''10.0.0.1''"
    by (simp add: realWatcher_def newEgressIPWatcher_def)
  show ?thesis
    using egressIP_is_localIP [of okEnv realWatcher "''0x00000007''"] unfolding l .
qed

text \<open>C8, as the claim states it, fails for releaseEgressIP: it returns no error.\<close>

theorem releaseEgressIP_localIP_counterexample:
  "localIP realWatcher = ''10.0.0.1''
   \<and> fst (releaseEgressIP okEnv realWatcher ''10.0.0.1'' ''0x00000007'') = None"
  by (simp add: releaseEgressIP_def realWatcher_def newEgressIPWatcher_def)

section \<open>The invariants hold in every reachable state\<close>

subsection \<open>Basic facts\<close>

lemma set_NewString [simp]: "set (NewString xs) = set xs"
  by (simp add: NewString_def)

lemma distinct_NewString [simp]: "distinct (NewString xs)"
  by (simp add: NewString_def)

lemma NewString_Nil [simp]: "NewString [] = []"
  by (simp add: NewString_def)

lemma Has_iff [simp]: "Has s x = (x \<in> set s)"
  by (simp add: Has_def)

lemma set_Insert [simp]: "set (Insert s x) = insert x (set s)"
  by (auto simp add: Insert_def)

lemma set_Delete [simp]: "set (Delete s x) = set s - {x}"
  by (auto simp add: Delete_def)

lemma set_Difference [simp]: "set (Difference s1 s2) = set s1 - set s2"
  by (auto simp add: Difference_def)

lemma set_UnsortedList [simp]: "set (UnsortedList r s) = set s"
  by (simp add: UnsortedList_def)

lemma Difference_self [simp]: "Difference s s = []"
  by (simp add: Difference_def)

lemma UnsortedList_Nil [simp]: "UnsortedList r [] = []"
  by (simp add: UnsortedList_def)

lemma perform_fields [simp]:
  "localIP (perform c s) = localIP s"
  "masqueradeBit (perform c s) = masqueradeBit s"
  "testMode (perform c s) = testMode s"
  "nodesByNodeIP (perform c s) = nodesByNodeIP s"
  "nodesByEgressIP (perform c s) = nodesByEgressIP s"
  "namespacesByVNID (perform c s) = namespacesByVNID s"
  "namespacesByEgressIP (perform c s) = namespacesByEgressIP s"
  "nodeObjs (perform c s) = nodeObjs s"
  "nsObjs (perform c s) = nsObjs s"
  "calls (perform c s) = calls s @ [c]"
  "logs (perform c s) = logs s"
  by (simp_all add: perform_def)

lemma glog_fields [simp]:
  "localIP (glog m s) = localIP s"
  "masqueradeBit (glog m s) = masqueradeBit s"
  "testMode (glog m s) = testMode s"
  "nodesByNodeIP (glog m s) = nodesByNodeIP s"
  "nodesByEgressIP (glog m s) = nodesByEgressIP s"
  "namespacesByVNID (glog m s) = namespacesByVNID s"
  "namespacesByEgressIP (glog m s) = namespacesByEgressIP s"
  "nodeObjs (glog m s) = nodeObjs s"
  "nsObjs (glog m s) = nsObjs s"
  "calls (glog m s) = calls s"
  "logs (glog m s) = logs s @ [m]"
  by (simp_all add: glog_def)

lemma updNode_fields [simp]:
  "localIP (updNode nd f s) = localIP s"
  "masqueradeBit (updNode nd f s) = masqueradeBit s"
  "testMode (updNode nd f s) = testMode s"
  "nodesByNodeIP (updNode nd f s) = nodesByNodeIP s"
  "nodesByEgressIP (updNode nd f s) = nodesByEgressIP s"
  "namespacesByVNID (updNode nd f s) = namespacesByVNID s"
  "namespacesByEgressIP (updNode nd f s) = namespacesByEgressIP s"
  "nodeObjs (updNode nd f s) = (nodeObjs s)[nd := f (nodeObjs s ! nd)]"
  "nsObjs (updNode nd f s) = nsObjs s"
  "calls (updNode nd f s) = calls s"
  "logs (updNode nd f s) = logs s"
  by (simp_all add: updNode_def)

lemma updNs_fields [simp]:
  "localIP (updNs ns f s) = localIP s"
  "masqueradeBit (updNs ns f s) = masqueradeBit s"
  "testMode (updNs ns f s) = testMode s"
  "nodesByNodeIP (updNs ns f s) = nodesByNodeIP s"
  "nodesByEgressIP (updNs ns f s) = nodesByEgressIP s"
  "namespacesByVNID (updNs ns f s) = namespacesByVNID s"
  "namespacesByEgressIP (updNs ns f s) = namespacesByEgressIP s"
  "nodeObjs (updNs ns f s) = nodeObjs s"
  "nsObjs (updNs ns f s) = (nsObjs s)[ns := f (nsObjs s ! ns)]"
  "calls (updNs ns f s) = calls s"
  "logs (updNs ns f s) = logs s"
  by (simp_all add: updNs_def)

lemma only_io_fields:
  assumes "only_io s t"
  shows "localIP t = localIP s" "masqueradeBit t = masqueradeBit s" "testMode t = testMode s"
    "nodesByNodeIP t = nodesByNodeIP s" "nodesByEgressIP t = nodesByEgressIP s"
    "namespacesByVNID t = namespacesByVNID s" "namespacesByEgressIP t = namespacesByEgressIP s"
    "nodeObjs t = nodeObjs s" "nsObjs t = nsObjs s"
  using assms by (simp_all add: only_io_def)

lemma only_io_refl [simp]: "only_io s s"
  by (simp add: only_io_def)

lemma only_io_perform [simp]: "only_io s (perform c t) = only_io s t"
  by (simp add: only_io_def)

lemma only_io_glog [simp]: "only_io s (glog m t) = only_io s t"
  by (simp add: only_io_def)

lemma assignEgressIP_only_io: "only_io s (snd (assignEgressIP e s ip m))"
  by (simp add: assignEgressIP_def Let_def)

lemma releaseEgressIP_only_io: "only_io s (snd (releaseEgressIP e s ip m))"
  by (simp add: releaseEgressIP_def Let_def)

lemmas assign_fields = only_io_fields [OF assignEgressIP_only_io]
lemmas release_fields = only_io_fields [OF releaseEgressIP_only_io]

lemma maybeAdd_fields [simp]:
  "localIP (maybeAddEgressIP e s ip) = localIP s"
  "masqueradeBit (maybeAddEgressIP e s ip) = masqueradeBit s"
  "testMode (maybeAddEgressIP e s ip) = testMode s"
  "nodesByNodeIP (maybeAddEgressIP e s ip) = nodesByNodeIP s"
  "nodesByEgressIP (maybeAddEgressIP e s ip) = nodesByEgressIP s"
  "namespacesByVNID (maybeAddEgressIP e s ip) = namespacesByVNID s"
  "namespacesByEgressIP (maybeAddEgressIP e s ip) = namespacesByEgressIP s"
  "length (nodeObjs (maybeAddEgressIP e s ip)) = length (nodeObjs s)"
  "length (nsObjs (maybeAddEgressIP e s ip)) = length (nsObjs s)"
  by (simp_all add: maybeAddEgressIP_def Let_def case_prod_beta assign_fields
      split: option.splits)

lemma deleteEgressIP_fields [simp]:
  "localIP (deleteEgressIP e s ip) = localIP s"
  "masqueradeBit (deleteEgressIP e s ip) = masqueradeBit s"
  "testMode (deleteEgressIP e s ip) = testMode s"
  "nodesByNodeIP (deleteEgressIP e s ip) = nodesByNodeIP s"
  "nodesByEgressIP (deleteEgressIP e s ip) = nodesByEgressIP s"
  "namespacesByVNID (deleteEgressIP e s ip) = namespacesByVNID s"
  "namespacesByEgressIP (deleteEgressIP e s ip) = namespacesByEgressIP s"
  "length (nodeObjs (deleteEgressIP e s ip)) = length (nodeObjs s)"
  "length (nsObjs (deleteEgressIP e s ip)) = length (nsObjs s)"
  by (simp_all add: deleteEgressIP_def Let_def case_prod_beta release_fields
      split: option.splits)

lemma maybeAdd_ptr_ok: "ptr_ok s \<Longrightarrow> ptr_ok (maybeAddEgressIP e s ip)"
  by (simp add: ptr_ok_def)

lemma deleteEgressIP_ptr_ok: "ptr_ok s \<Longrightarrow> ptr_ok (deleteEgressIP e s ip)"
  by (simp add: ptr_ok_def)

text \<open>What maybeAddEgressIP does to the two stores.\<close>

lemma maybeAdd_nodeObjs:
  "nodeObjs (maybeAddEgressIP e s ip) =
     (case (namespacesByEgressIP s ip, nodesByEgressIP s ip) of
        (Some ns, Some nd) \<Rightarrow>
           (nodeObjs s)[nd := (nodeObjs s ! nd)\<lparr>assignedIPs := Insert (assignedIPs (nodeObjs s ! nd)) ip\<rparr>]
      | _ \<Rightarrow> nodeObjs s)"
  apply (simp add: maybeAddEgressIP_def Let_def case_prod_beta assign_fields
      split: option.splits)
  apply (auto simp add: Insert_def list_update_same_conv)
  done

lemma ptr_okD:
  assumes "ptr_ok s"
  shows "nodesByNodeIP s k = Some nd \<Longrightarrow> nd < length (nodeObjs s)"
    and "nodesByEgressIP s ip = Some nd \<Longrightarrow> nd < length (nodeObjs s)"
    and "namespacesByVNID s v = Some ns \<Longrightarrow> ns < length (nsObjs s)"
    and "namespacesByEgressIP s ip = Some ns \<Longrightarrow> ns < length (nsObjs s)"
  using assms unfolding ptr_ok_def by blast+

lemma maybeAdd_nsObjs_other:
  "namespacesByEgressIP s ip \<noteq> Some q \<Longrightarrow> nsObjs (maybeAddEgressIP e s ip) ! q = nsObjs s ! q"
  by (auto simp add: maybeAddEgressIP_def Let_def case_prod_beta assign_fields
      split: option.splits)

lemma maybeAdd_nsObjs_self:
  assumes "ptr_ok s" "namespacesByEgressIP s ip = Some ns"
  shows "vnid (nsObjs (maybeAddEgressIP e s ip) ! ns) = vnid (nsObjs s ! ns)"
    and "requestedIP (nsObjs (maybeAddEgressIP e s ip) ! ns) = requestedIP (nsObjs s ! ns)"
    and "assignedIP (nsObjs (maybeAddEgressIP e s ip) ! ns) = ip"
    and "ns_nodeIP (nsObjs (maybeAddEgressIP e s ip) ! ns) = ''''
         \<or> (\<exists>nd. nodesByEgressIP s ip = Some nd
               \<and> ns_nodeIP (nsObjs (maybeAddEgressIP e s ip) ! ns) = nodeIP (nodeObjs s ! nd))"
  using assms ptr_okD(4) [OF assms] ptr_okD(2) [OF assms(1), of ip]
  by (auto simp add: maybeAddEgressIP_def Let_def case_prod_beta assign_fields
      split: option.splits)

lemma nth_upd_cases:
  "P (xs ! j) \<Longrightarrow> P (f (xs ! j)) \<Longrightarrow> P ((xs[i := f (xs ! i)]) ! j)"
  by (cases "i < length xs") (auto simp add: nth_list_update list_update_beyond)

lemma maybeAdd_nodeObjs_nth:
  "nodeIP (nodeObjs (maybeAddEgressIP e s ip) ! nd) = nodeIP (nodeObjs s ! nd)"
  "requestedIPs (nodeObjs (maybeAddEgressIP e s ip) ! nd) = requestedIPs (nodeObjs s ! nd)"
  "set (assignedIPs (nodeObjs s ! nd)) \<subseteq> set (assignedIPs (nodeObjs (maybeAddEgressIP e s ip) ! nd))"
  "set (assignedIPs (nodeObjs (maybeAddEgressIP e s ip) ! nd)) \<subseteq> insert ip (set (assignedIPs (nodeObjs s ! nd)))"
proof -
  let ?f = "\<lambda>n. n\<lparr>assignedIPs := Insert (assignedIPs n) ip\<rparr>"
  have A: "\<And>i. nodeIP (((nodeObjs s)[i := ?f (nodeObjs s ! i)]) ! nd) = nodeIP (nodeObjs s ! nd)"
    by (rule nth_upd_cases) simp_all
  have B: "\<And>i. requestedIPs (((nodeObjs s)[i := ?f (nodeObjs s ! i)]) ! nd) = requestedIPs (nodeObjs s ! nd)"
    by (rule nth_upd_cases) simp_all
  have C: "\<And>i. set (assignedIPs (nodeObjs s ! nd)) \<subseteq> set (assignedIPs (((nodeObjs s)[i := ?f (nodeObjs s ! i)]) ! nd))"
    by (rule nth_upd_cases) auto
  have D: "\<And>i. set (assignedIPs (((nodeObjs s)[i := ?f (nodeObjs s ! i)]) ! nd)) \<subseteq> insert ip (set (assignedIPs (nodeObjs s ! nd)))"
    by (rule nth_upd_cases) auto
  show "nodeIP (nodeObjs (maybeAddEgressIP e s ip) ! nd) = nodeIP (nodeObjs s ! nd)"
    unfolding maybeAdd_nodeObjs using A by (simp split: option.splits)
  show "requestedIPs (nodeObjs (maybeAddEgressIP e s ip) ! nd) = requestedIPs (nodeObjs s ! nd)"
    unfolding maybeAdd_nodeObjs using B by (simp split: option.splits)
  show "set (assignedIPs (nodeObjs s ! nd)) \<subseteq> set (assignedIPs (nodeObjs (maybeAddEgressIP e s ip) ! nd))"
    unfolding maybeAdd_nodeObjs using C by (auto split: option.splits)
  show "set (assignedIPs (nodeObjs (maybeAddEgressIP e s ip) ! nd)) \<subseteq> insert ip (set (assignedIPs (nodeObjs s ! nd)))"
    unfolding maybeAdd_nodeObjs using D by (auto split: option.splits)
qed

lemma maybeAdd_assigned:
  assumes "ptr_ok s" "namespacesByEgressIP s ip = Some ns" "nodesByEgressIP s ip = Some nd"
  shows "ip \<in> set (assignedIPs (nodeObjs (maybeAddEgressIP e s ip) ! nd))"
  using assms ptr_okD(2) [OF assms(1) assms(3)]
  by (simp add: maybeAdd_nodeObjs)

lemma maybeAdd_inv_served:
  assumes p: "ptr_ok s" and i: "inv_served s"
  shows "inv_served (maybeAddEgressIP e s ip)"
  unfolding inv_served_def
proof (intro allI impI)
  fix q
  let ?t = "maybeAddEgressIP e s ip"
  assume q: "q < length (nsObjs ?t)" and n: "ns_nodeIP (nsObjs ?t ! q) \<noteq> ''''"
  show "served ?t q"
  proof (cases "namespacesByEgressIP s ip = Some q")
    case True
    from maybeAdd_nsObjs_self(3,4) [OF p True, of e] n
    obtain nd where nd: "nodesByEgressIP s ip = Some nd"
      "ns_nodeIP (nsObjs ?t ! q) = nodeIP (nodeObjs s ! nd)"
      and a: "assignedIP (nsObjs ?t ! q) = ip" by auto
    show ?thesis
      unfolding served_def a
      using True nd maybeAdd_assigned [OF p True nd(1), of e]
      by (simp add: maybeAdd_nodeObjs_nth)
  next
    case False
    then have same: "nsObjs ?t ! q = nsObjs s ! q" by (rule maybeAdd_nsObjs_other)
    from q n same i have "served s q" by (simp add: inv_served_def)
    then show ?thesis
      unfolding served_def same
      by (auto simp add: maybeAdd_nodeObjs_nth(1,2) intro: maybeAdd_nodeObjs_nth(3) [THEN subsetD])
  qed
qed

lemma deleteEgressIP_nodeObjs:
  "nodeObjs (deleteEgressIP e s ip) =
     (case (nodesByEgressIP s ip, namespacesByEgressIP s ip) of
        (Some nd, Some ns) \<Rightarrow>
           if nodeIP (nodeObjs s ! nd) = localIP s
           then (nodeObjs s)[nd := (nodeObjs s ! nd)\<lparr>assignedIPs := Delete (assignedIPs (nodeObjs s ! nd)) ip\<rparr>]
           else nodeObjs s
      | _ \<Rightarrow> nodeObjs s)"
  by (simp add: deleteEgressIP_def Let_def case_prod_beta release_fields
      split: option.splits)

lemma deleteEgressIP_nodeObjs_nth:
  "nodeIP (nodeObjs (deleteEgressIP e s ip) ! nd) = nodeIP (nodeObjs s ! nd)"
  "requestedIPs (nodeObjs (deleteEgressIP e s ip) ! nd) = requestedIPs (nodeObjs s ! nd)"
  "set (assignedIPs (nodeObjs s ! nd)) - {ip} \<subseteq> set (assignedIPs (nodeObjs (deleteEgressIP e s ip) ! nd))"
  "set (assignedIPs (nodeObjs (deleteEgressIP e s ip) ! nd)) \<subseteq> set (assignedIPs (nodeObjs s ! nd))"
proof -
  let ?f = "\<lambda>n. n\<lparr>assignedIPs := Delete (assignedIPs n) ip\<rparr>"
  have A: "\<And>i. nodeIP (((nodeObjs s)[i := ?f (nodeObjs s ! i)]) ! nd) = nodeIP (nodeObjs s ! nd)"
    by (rule nth_upd_cases) simp_all
  have B: "\<And>i. requestedIPs (((nodeObjs s)[i := ?f (nodeObjs s ! i)]) ! nd) = requestedIPs (nodeObjs s ! nd)"
    by (rule nth_upd_cases) simp_all
  have C: "\<And>i. set (assignedIPs (nodeObjs s ! nd)) - {ip} \<subseteq> set (assignedIPs (((nodeObjs s)[i := ?f (nodeObjs s ! i)]) ! nd))"
    by (rule nth_upd_cases) auto
  have D: "\<And>i. set (assignedIPs (((nodeObjs s)[i := ?f (nodeObjs s ! i)]) ! nd)) \<subseteq> set (assignedIPs (nodeObjs s ! nd))"
    by (rule nth_upd_cases) auto
  show "nodeIP (nodeObjs (deleteEgressIP e s ip) ! nd) = nodeIP (nodeObjs s ! nd)"
    unfolding deleteEgressIP_nodeObjs using A by (simp split: option.splits)
  show "requestedIPs (nodeObjs (deleteEgressIP e s ip) ! nd) = requestedIPs (nodeObjs s ! nd)"
    unfolding deleteEgressIP_nodeObjs using B by (simp split: option.splits)
  show "set (assignedIPs (nodeObjs s ! nd)) - {ip} \<subseteq> set (assignedIPs (nodeObjs (deleteEgressIP e s ip) ! nd))"
    unfolding deleteEgressIP_nodeObjs using C by (auto split: option.splits)
  show "set (assignedIPs (nodeObjs (deleteEgressIP e s ip) ! nd)) \<subseteq> set (assignedIPs (nodeObjs s ! nd))"
    unfolding deleteEgressIP_nodeObjs using D by (auto split: option.splits)
qed

lemma deleteEgressIP_nsObjs_other:
  "namespacesByEgressIP s ip \<noteq> Some q \<Longrightarrow> nsObjs (deleteEgressIP e s ip) ! q = nsObjs s ! q"
  by (auto simp add: deleteEgressIP_def Let_def case_prod_beta release_fields
      split: option.splits)

lemma deleteEgressIP_noop:
  "nodesByEgressIP s ip = None \<or> namespacesByEgressIP s ip = None \<Longrightarrow> deleteEgressIP e s ip = s"
  by (auto simp add: deleteEgressIP_def split: option.splits)

lemma deleteEgressIP_nsObjs_self:
  assumes "ptr_ok s" "namespacesByEgressIP s ip = Some ns" "nodesByEgressIP s ip = Some nd"
  shows "vnid (nsObjs (deleteEgressIP e s ip) ! ns) = vnid (nsObjs s ! ns)"
    and "requestedIP (nsObjs (deleteEgressIP e s ip) ! ns) = requestedIP (nsObjs s ! ns)"
    and "assignedIP (nsObjs (deleteEgressIP e s ip) ! ns)
           = (if assignedIP (nsObjs s ! ns) = ip then '''' else assignedIP (nsObjs s ! ns))"
    and "ns_nodeIP (nsObjs (deleteEgressIP e s ip) ! ns)
           = (if assignedIP (nsObjs s ! ns) = ip then '''' else ns_nodeIP (nsObjs s ! ns))"
  using assms ptr_okD(4) [OF assms(1,2)] ptr_okD(2) [OF assms(1,3)]
  by (auto simp add: deleteEgressIP_def Let_def case_prod_beta release_fields
      split: option.splits)

lemma deleteEgressIP_inv_served:
  assumes p: "ptr_ok s" and i: "inv_served s"
  shows "inv_served (deleteEgressIP e s ip)"
proof (cases "nodesByEgressIP s ip = None \<or> namespacesByEgressIP s ip = None")
  case True
  then show ?thesis using i by (simp add: deleteEgressIP_noop)
next
  case False
  then obtain nd ns where nd: "nodesByEgressIP s ip = Some nd"
    and ns: "namespacesByEgressIP s ip = Some ns" by auto
  let ?t = "deleteEgressIP e s ip"
  show ?thesis
    unfolding inv_served_def
  proof (intro allI impI)
    fix q
    assume q: "q < length (nsObjs ?t)" and n: "ns_nodeIP (nsObjs ?t ! q) \<noteq> ''''"
    have old: "ns_nodeIP (nsObjs s ! q) \<noteq> '''' \<and> assignedIP (nsObjs s ! q) \<noteq> ip
        \<and> assignedIP (nsObjs ?t ! q) = assignedIP (nsObjs s ! q)
        \<and> ns_nodeIP (nsObjs ?t ! q) = ns_nodeIP (nsObjs s ! q)"
    proof (cases "q = ns")
      case True
      then show ?thesis
        using n deleteEgressIP_nsObjs_self(3,4) [OF p ns nd, of e]
        by (auto split: if_splits)
    next
      case False
      then have same: "nsObjs ?t ! q = nsObjs s ! q"
        using ns by (simp add: deleteEgressIP_nsObjs_other)
      then have "ns_nodeIP (nsObjs s ! q) \<noteq> ''''" using n by simp
      then have "served s q" using i q by (simp add: inv_served_def)
      then have "assignedIP (nsObjs s ! q) \<noteq> ip"
        using False ns by (auto simp add: served_def)
      then show ?thesis using same n by simp
    qed
    then have "served s q" using i q by (simp add: inv_served_def)
    then show "served ?t q"
      unfolding served_def using old
      by (auto simp add: deleteEgressIP_nodeObjs_nth(1,2)
          intro: deleteEgressIP_nodeObjs_nth(3) [THEN subsetD])
  qed
qed

lemma deleteEgressIP_unserved:
  assumes p: "ptr_ok s" and i: "inv_served s"
    and q: "q < length (nsObjs s)"
    and a: "assignedIP (nsObjs (deleteEgressIP e s ip) ! q) = ip"
  shows "ns_nodeIP (nsObjs (deleteEgressIP e s ip) ! q) = ''''"
proof (rule ccontr)
  let ?t = "deleteEgressIP e s ip"
  assume n: "ns_nodeIP (nsObjs ?t ! q) \<noteq> ''''"
  have "inv_served ?t" by (rule deleteEgressIP_inv_served [OF p i])
  then have "served ?t q" using q n by (simp add: inv_served_def)
  then obtain nd where ns: "namespacesByEgressIP s ip = Some q"
    and nd: "nodesByEgressIP s ip = Some nd"
    using a by (auto simp add: served_def)
  show False
    using n a deleteEgressIP_nsObjs_self(3,4) [OF p ns nd, of e]
    by (auto split: if_splits)
qed

text \<open>Removing a registration for an IP on which no namespace is served.\<close>

lemma inv_served_unregister_node:
  assumes "inv_served s"
    and "\<forall>q < length (nsObjs s). assignedIP (nsObjs s ! q) = ip \<longrightarrow> ns_nodeIP (nsObjs s ! q) = ''''"
  shows "inv_served (s\<lparr>nodesByEgressIP := (nodesByEgressIP s)(ip := None)\<rparr>)"
  using assms unfolding inv_served_def served_def by auto

lemma inv_served_unregister_ns:
  assumes "inv_served s"
    and "\<forall>q < length (nsObjs s). assignedIP (nsObjs s ! q) = ip \<longrightarrow> ns_nodeIP (nsObjs s ! q) = ''''"
  shows "inv_served (s\<lparr>namespacesByEgressIP := (namespacesByEgressIP s)(ip := None)\<rparr>)"
  using assms unfolding inv_served_def served_def by auto

lemma inv_served_register_node:
  assumes "inv_served s" "nodesByEgressIP s ip = None"
  shows "inv_served (s\<lparr>nodesByEgressIP := (nodesByEgressIP s)(ip \<mapsto> nd)\<rparr>)"
  using assms unfolding inv_served_def served_def by auto

lemma inv_served_register_ns:
  assumes "inv_served s" "namespacesByEgressIP s ip = None"
  shows "inv_served (s\<lparr>namespacesByEgressIP := (namespacesByEgressIP s)(ip \<mapsto> ns)\<rparr>)"
  using assms unfolding inv_served_def served_def by auto

lemma ptr_ok_register_node:
  assumes "ptr_ok s" "nd < length (nodeObjs s)"
  shows "ptr_ok (s\<lparr>nodesByEgressIP := (nodesByEgressIP s)(ip \<mapsto> nd)\<rparr>)"
  using assms unfolding ptr_ok_def by auto

lemma ptr_ok_register_ns:
  assumes "ptr_ok s" "ns < length (nsObjs s)"
  shows "ptr_ok (s\<lparr>namespacesByEgressIP := (namespacesByEgressIP s)(ip \<mapsto> ns)\<rparr>)"
  using assms unfolding ptr_ok_def by auto

lemma ptr_ok_unregister:
  assumes "ptr_ok s"
  shows "ptr_ok (s\<lparr>nodesByEgressIP := (nodesByEgressIP s)(ip := None)\<rparr>)"
    and "ptr_ok (s\<lparr>namespacesByEgressIP := (namespacesByEgressIP s)(ip := None)\<rparr>)"
    and "ptr_ok (s\<lparr>namespacesByVNID := (namespacesByVNID s)(v := None)\<rparr>)"
    and "ptr_ok (s\<lparr>nodesByNodeIP := (nodesByNodeIP s)(k := None)\<rparr>)"
  using assms unfolding ptr_ok_def by auto

text \<open>The two loop bodies of updateNodeEgress.\<close>

lemma processNew_ptr_ok:
  assumes "ptr_ok s" "nd < length (nodeObjs s)"
  shows "ptr_ok (processNewEgressIP e nd ip s)"
  using assms
  by (auto simp add: processNewEgressIP_def ptr_ok_def split: option.splits)

lemma processNew_inv_served:
  assumes "ptr_ok s" "nd < length (nodeObjs s)" "inv_served s"
  shows "inv_served (processNewEgressIP e nd ip s)"
proof (cases "nodesByEgressIP s ip")
  case None
  then show ?thesis
    using assms
    by (simp add: processNewEgressIP_def maybeAdd_inv_served ptr_ok_register_node
        inv_served_register_node)
next
  case (Some a)
  then show ?thesis
    using assms(3) by (simp add: processNewEgressIP_def inv_served_def served_def)
qed

lemma processRemoved_ptr_ok:
  assumes "ptr_ok s"
  shows "ptr_ok (processRemovedEgressIP e nd ip s)"
  using assms
  by (auto simp add: processRemovedEgressIP_def ptr_ok_def Let_def)

lemma processRemoved_inv_served:
  assumes "ptr_ok s" "inv_served s"
  shows "inv_served (processRemovedEgressIP e nd ip s)"
proof (cases "nodesByEgressIP s ip = Some nd")
  case False
  then show ?thesis using assms by (simp add: processRemovedEgressIP_def)
next
  case True
  have "inv_served ((deleteEgressIP e s ip)\<lparr>nodesByEgressIP := (nodesByEgressIP (deleteEgressIP e s ip))(ip := None)\<rparr>)"
    by (rule inv_served_unregister_node)
      (use assms in \<open>auto simp add: deleteEgressIP_inv_served deleteEgressIP_unserved\<close>)
  then show ?thesis using True by (simp add: processRemovedEgressIP_def Let_def)
qed

lemma fold_inv:
  assumes "\<And>x s. x \<in> set xs \<Longrightarrow> P s \<Longrightarrow> P (f x s)" "P s"
  shows "P (fold f xs s)"
  using assms by (induction xs arbitrary: s) auto

text \<open>Invariants that read only some fields carry over to a state that agrees on them.\<close>

lemma inv_nodes_cong:
  assumes "inv_nodes s" "nodesByNodeIP t = nodesByNodeIP s"
    and "\<And>nd. nodeIP (nodeObjs t ! nd) = nodeIP (nodeObjs s ! nd)"
  shows "inv_nodes t"
  using assms unfolding inv_nodes_def by simp

lemma inv_claims_except_cong:
  assumes "inv_claims_except nd A s"
    and "nodesByNodeIP t = nodesByNodeIP s" "nodesByEgressIP t = nodesByEgressIP s"
    and "\<And>nd. nodeIP (nodeObjs t ! nd) = nodeIP (nodeObjs s ! nd)"
    and "\<And>nd. requestedIPs (nodeObjs t ! nd) = requestedIPs (nodeObjs s ! nd)"
  shows "inv_claims_except nd A t"
  using assms unfolding inv_claims_except_def by simp

lemma inv_claims_cong:
  assumes "inv_claims s"
    and "nodesByNodeIP t = nodesByNodeIP s" "nodesByEgressIP t = nodesByEgressIP s"
    and "\<And>nd. nodeIP (nodeObjs t ! nd) = nodeIP (nodeObjs s ! nd)"
    and "\<And>nd. requestedIPs (nodeObjs t ! nd) = requestedIPs (nodeObjs s ! nd)"
  shows "inv_claims t"
  using assms unfolding inv_claims_def by simp

lemma maybeAdd_inv_nodes: "inv_nodes s \<Longrightarrow> inv_nodes (maybeAddEgressIP e s ip)"
  by (erule inv_nodes_cong) (simp_all add: maybeAdd_nodeObjs_nth)

lemma deleteEgressIP_inv_nodes: "inv_nodes s \<Longrightarrow> inv_nodes (deleteEgressIP e s ip)"
  by (erule inv_nodes_cong) (simp_all add: deleteEgressIP_nodeObjs_nth)

lemma maybeAdd_inv_claims: "inv_claims s \<Longrightarrow> inv_claims (maybeAddEgressIP e s ip)"
  by (erule inv_claims_cong) (simp_all add: maybeAdd_nodeObjs_nth)

lemma deleteEgressIP_inv_claims: "inv_claims s \<Longrightarrow> inv_claims (deleteEgressIP e s ip)"
  by (erule inv_claims_cong) (simp_all add: deleteEgressIP_nodeObjs_nth)

lemma maybeAdd_inv_claims_except:
  "inv_claims_except nd A s \<Longrightarrow> inv_claims_except nd A (maybeAddEgressIP e s ip)"
  by (erule inv_claims_except_cong) (simp_all add: maybeAdd_nodeObjs_nth)

lemma deleteEgressIP_inv_claims_except:
  "inv_claims_except nd A s \<Longrightarrow> inv_claims_except nd A (deleteEgressIP e s ip)"
  by (erule inv_claims_except_cong) (simp_all add: deleteEgressIP_nodeObjs_nth)

text \<open>What the loop bodies keep of the state.\<close>

lemma processNew_fields [simp]:
  "localIP (processNewEgressIP e nd ip s) = localIP s"
  "masqueradeBit (processNewEgressIP e nd ip s) = masqueradeBit s"
  "testMode (processNewEgressIP e nd ip s) = testMode s"
  "nodesByNodeIP (processNewEgressIP e nd ip s) = nodesByNodeIP s"
  "namespacesByVNID (processNewEgressIP e nd ip s) = namespacesByVNID s"
  "namespacesByEgressIP (processNewEgressIP e nd ip s) = namespacesByEgressIP s"
  "length (nodeObjs (processNewEgressIP e nd ip s)) = length (nodeObjs s)"
  "length (nsObjs (processNewEgressIP e nd ip s)) = length (nsObjs s)"
  "nodeIP (nodeObjs (processNewEgressIP e nd ip s) ! a) = nodeIP (nodeObjs s ! a)"
  "requestedIPs (nodeObjs (processNewEgressIP e nd ip s) ! a) = requestedIPs (nodeObjs s ! a)"
  by (simp_all add: processNewEgressIP_def maybeAdd_nodeObjs_nth split: option.splits)

lemma processRemoved_fields [simp]:
  "localIP (processRemovedEgressIP e nd ip s) = localIP s"
  "masqueradeBit (processRemovedEgressIP e nd ip s) = masqueradeBit s"
  "testMode (processRemovedEgressIP e nd ip s) = testMode s"
  "nodesByNodeIP (processRemovedEgressIP e nd ip s) = nodesByNodeIP s"
  "namespacesByVNID (processRemovedEgressIP e nd ip s) = namespacesByVNID s"
  "namespacesByEgressIP (processRemovedEgressIP e nd ip s) = namespacesByEgressIP s"
  "length (nodeObjs (processRemovedEgressIP e nd ip s)) = length (nodeObjs s)"
  "length (nsObjs (processRemovedEgressIP e nd ip s)) = length (nsObjs s)"
  "nodeIP (nodeObjs (processRemovedEgressIP e nd ip s) ! a) = nodeIP (nodeObjs s ! a)"
  "requestedIPs (nodeObjs (processRemovedEgressIP e nd ip s) ! a) = requestedIPs (nodeObjs s ! a)"
  by (simp_all add: processRemovedEgressIP_def Let_def deleteEgressIP_nodeObjs_nth)

lemma processNew_inv_nodes: "inv_nodes s \<Longrightarrow> inv_nodes (processNewEgressIP e nd ip s)"
  by (erule inv_nodes_cong) simp_all

lemma processRemoved_inv_nodes: "inv_nodes s \<Longrightarrow> inv_nodes (processRemovedEgressIP e nd ip s)"
  by (erule inv_nodes_cong) simp_all

lemma processNew_inv_claims_except:
  assumes "inv_claims_except nd A s" "ip \<in> A"
  shows "inv_claims_except nd A (processNewEgressIP e nd ip s)"
proof (cases "nodesByEgressIP s ip")
  case None
  have "inv_claims_except nd A (s\<lparr>nodesByEgressIP := (nodesByEgressIP s)(ip \<mapsto> nd)\<rparr>)"
    using assms unfolding inv_claims_except_def by auto
  then show ?thesis
    using None by (simp add: processNewEgressIP_def maybeAdd_inv_claims_except)
next
  case (Some a)
  then show ?thesis
    using assms(1) by (simp add: processNewEgressIP_def inv_claims_except_def)
qed

lemma inv_claims_except_unregister:
  "inv_claims_except nd A s \<Longrightarrow>
   inv_claims_except nd (A - {ip}) (s\<lparr>nodesByEgressIP := (nodesByEgressIP s)(ip := None)\<rparr>)"
  unfolding inv_claims_except_def by auto

lemma processRemoved_inv_claims_except:
  assumes "inv_claims_except nd A s"
  shows "inv_claims_except nd (A - {ip}) (processRemovedEgressIP e nd ip s)"
proof (cases "nodesByEgressIP s ip = Some nd")
  case False
  then show ?thesis
    using assms unfolding processRemovedEgressIP_def inv_claims_except_def by auto
next
  case True
  have "inv_claims_except nd A (deleteEgressIP e s ip)"
    by (rule deleteEgressIP_inv_claims_except [OF assms])
  then have "inv_claims_except nd (A - {ip})
      ((deleteEgressIP e s ip)\<lparr>nodesByEgressIP := (nodesByEgressIP (deleteEgressIP e s ip))(ip := None)\<rparr>)"
    by (rule inv_claims_except_unregister)
  then show ?thesis using True by (simp add: processRemovedEgressIP_def Let_def)
qed

lemma fold_processRemoved_inv_claims_except:
  "inv_claims_except nd A s \<Longrightarrow>
   inv_claims_except nd (A - set L) (fold (processRemovedEgressIP e nd) L s)"
proof (induction L arbitrary: s A)
  case Nil
  then show ?case by simp
next
  case (Cons x L)
  have "inv_claims_except nd ((A - {x}) - set L)
          (fold (processRemovedEgressIP e nd) L (processRemovedEgressIP e nd x s))"
    by (rule Cons.IH) (rule processRemoved_inv_claims_except [OF Cons.prems])
  moreover have "(A - {x}) - set L = A - set (x # L)" by auto
  ultimately show ?case by simp
qed

lemma processNew_loop_inv: "loop_inv nd s \<Longrightarrow> loop_inv nd (processNewEgressIP e nd ip s)"
  by (simp add: loop_inv_def processNew_ptr_ok processNew_inv_served processNew_inv_nodes)

lemma processRemoved_loop_inv: "loop_inv nd s \<Longrightarrow> loop_inv nd (processRemovedEgressIP e nd ip s)"
  by (simp add: loop_inv_def processRemoved_ptr_ok processRemoved_inv_served processRemoved_inv_nodes)

lemma fold_processNew:
  assumes "loop_inv nd s" "inv_claims_except nd A s" "set L \<subseteq> A"
  shows "loop_inv nd (fold (processNewEgressIP e nd) L s)"
    and "inv_claims_except nd A (fold (processNewEgressIP e nd) L s)"
    and "nodesByNodeIP (fold (processNewEgressIP e nd) L s) = nodesByNodeIP s"
    and "nodeIP (nodeObjs (fold (processNewEgressIP e nd) L s) ! a) = nodeIP (nodeObjs s ! a)"
    and "requestedIPs (nodeObjs (fold (processNewEgressIP e nd) L s) ! a) = requestedIPs (nodeObjs s ! a)"
proof -
  show "loop_inv nd (fold (processNewEgressIP e nd) L s)"
    by (rule fold_inv [where P = "loop_inv nd"]) (simp_all add: processNew_loop_inv assms)
  show "inv_claims_except nd A (fold (processNewEgressIP e nd) L s)"
    by (rule fold_inv [where P = "inv_claims_except nd A"])
      (use assms in \<open>auto simp add: processNew_inv_claims_except\<close>)
  show "nodesByNodeIP (fold (processNewEgressIP e nd) L s) = nodesByNodeIP s"
    by (rule fold_inv [where P = "\<lambda>t. nodesByNodeIP t = nodesByNodeIP s"]) simp_all
  show "nodeIP (nodeObjs (fold (processNewEgressIP e nd) L s) ! a) = nodeIP (nodeObjs s ! a)"
    by (rule fold_inv [where P = "\<lambda>t. nodeIP (nodeObjs t ! a) = nodeIP (nodeObjs s ! a)"]) simp_all
  show "requestedIPs (nodeObjs (fold (processNewEgressIP e nd) L s) ! a) = requestedIPs (nodeObjs s ! a)"
    by (rule fold_inv [where P = "\<lambda>t. requestedIPs (nodeObjs t ! a) = requestedIPs (nodeObjs s ! a)"]) simp_all
qed

lemma fold_processRemoved:
  assumes "loop_inv nd s"
  shows "loop_inv nd (fold (processRemovedEgressIP e nd) L s)"
    and "nodesByNodeIP (fold (processRemovedEgressIP e nd) L s) = nodesByNodeIP s"
    and "nodeIP (nodeObjs (fold (processRemovedEgressIP e nd) L s) ! a) = nodeIP (nodeObjs s ! a)"
    and "requestedIPs (nodeObjs (fold (processRemovedEgressIP e nd) L s) ! a) = requestedIPs (nodeObjs s ! a)"
proof -
  show "loop_inv nd (fold (processRemovedEgressIP e nd) L s)"
    by (rule fold_inv [where P = "loop_inv nd"]) (simp_all add: processRemoved_loop_inv assms)
  show "nodesByNodeIP (fold (processRemovedEgressIP e nd) L s) = nodesByNodeIP s"
    by (rule fold_inv [where P = "\<lambda>t. nodesByNodeIP t = nodesByNodeIP s"]) simp_all
  show "nodeIP (nodeObjs (fold (processRemovedEgressIP e nd) L s) ! a) = nodeIP (nodeObjs s ! a)"
    by (rule fold_inv [where P = "\<lambda>t. nodeIP (nodeObjs t ! a) = nodeIP (nodeObjs s ! a)"]) simp_all
  show "requestedIPs (nodeObjs (fold (processRemovedEgressIP e nd) L s) ! a) = requestedIPs (nodeObjs s ! a)"
    by (rule fold_inv [where P = "\<lambda>t. requestedIPs (nodeObjs t ! a) = requestedIPs (nodeObjs s ! a)"]) simp_all
qed

lemma inv_served_cong:
  assumes "inv_served s" "ptr_ok s"
    and "namespacesByEgressIP t = namespacesByEgressIP s" "nodesByEgressIP t = nodesByEgressIP s"
    and "nsObjs t = nsObjs s"
    and "\<And>nd. nd < length (nodeObjs s) \<Longrightarrow> assignedIPs (nodeObjs t ! nd) = assignedIPs (nodeObjs s ! nd)"
    and "\<And>nd. nd < length (nodeObjs s) \<Longrightarrow> nodeIP (nodeObjs t ! nd) = nodeIP (nodeObjs s ! nd)"
  shows "inv_served t"
  unfolding inv_served_def served_def
proof (intro allI impI)
  fix q assume "q < length (nsObjs t)" "ns_nodeIP (nsObjs t ! q) \<noteq> ''''"
  then have "served s q" using assms(1,5) by (simp add: inv_served_def)
  then obtain nd where a: "namespacesByEgressIP s (assignedIP (nsObjs s ! q)) = Some q"
    and b: "nodesByEgressIP s (assignedIP (nsObjs s ! q)) = Some nd"
    and c: "assignedIP (nsObjs s ! q) \<in> set (assignedIPs (nodeObjs s ! nd))"
    and d: "nodeIP (nodeObjs s ! nd) = ns_nodeIP (nsObjs s ! q)"
    by (auto simp add: served_def)
  have "nd < length (nodeObjs s)" using assms(2) b by (rule ptr_okD)
  then show "namespacesByEgressIP t (assignedIP (nsObjs t ! q)) = Some q \<and>
       (\<exists>nd. nodesByEgressIP t (assignedIP (nsObjs t ! q)) = Some nd \<and>
             assignedIP (nsObjs t ! q) \<in> set (assignedIPs (nodeObjs t ! nd)) \<and>
             nodeIP (nodeObjs t ! nd) = ns_nodeIP (nsObjs t ! q))"
    using a b c d assms(3-7) by simp
qed

lemma updNode_requested_nth:
  "nodeIP ((xs[i := (xs ! i)\<lparr>requestedIPs := r\<rparr>]) ! a) = nodeIP (xs ! a)"
  "assignedIPs ((xs[i := (xs ! i)\<lparr>requestedIPs := r\<rparr>]) ! a) = assignedIPs (xs ! a)"
  "a \<noteq> i \<Longrightarrow> requestedIPs ((xs[i := (xs ! i)\<lparr>requestedIPs := r\<rparr>]) ! a) = requestedIPs (xs ! a)"
  "i < length xs \<Longrightarrow> requestedIPs ((xs[i := (xs ! i)\<lparr>requestedIPs := r\<rparr>]) ! i) = r"
proof -
  show "nodeIP ((xs[i := (xs ! i)\<lparr>requestedIPs := r\<rparr>]) ! a) = nodeIP (xs ! a)"
    by (rule nth_upd_cases [where f = "\<lambda>n. n\<lparr>requestedIPs := r\<rparr>"]) simp_all
  show "assignedIPs ((xs[i := (xs ! i)\<lparr>requestedIPs := r\<rparr>]) ! a) = assignedIPs (xs ! a)"
    by (rule nth_upd_cases [where f = "\<lambda>n. n\<lparr>requestedIPs := r\<rparr>"]) simp_all
qed simp_all

text \<open>The body of updateNodeEgress once \<open>node\<close> is known: the new requested set, then
  the two loops.\<close>

lemma updateNodeEgress_body_inv:
  fixes e :: env and ips :: "string list" and nd :: nat and s0 :: egressIPWatcher
  assumes L: "loop_inv nd s0"
    and C: "inv_claims_except nd (set (requestedIPs (nodeObjs s0 ! nd))) s0"
    and N: "nodeIP (nodeObjs s0 ! nd) = nIP"
    and M: "nodesByNodeIP s0 nIP = Some nd \<or> ips = []"
  defines "old \<equiv> requestedIPs (nodeObjs s0 ! nd)"
  defines "s1 \<equiv> updNode nd (\<lambda>n. n\<lparr>requestedIPs := NewString ips\<rparr>) s0"
  defines "s2 \<equiv> fold (processNewEgressIP e nd)
                   (UnsortedList (mapOrder e) (Difference (requestedIPs (nodeObjs s1 ! nd)) old)) s1"
  defines "s3 \<equiv> fold (processRemovedEgressIP e nd)
                   (UnsortedList (mapOrder e) (Difference old (requestedIPs (nodeObjs s2 ! nd)))) s2"
  shows "inv s3"
proof -
  let ?A = "set old \<union> set ips"
  have nd: "nd < length (nodeObjs s0)" and p0: "ptr_ok s0" and sv0: "inv_served s0"
    and n0: "inv_nodes s0"
    using L by (simp_all add: loop_inv_def)
  have r1: "requestedIPs (nodeObjs s1 ! nd) = NewString ips"
    using nd by (simp add: s1_def)
  have p1: "ptr_ok s1" using p0 by (simp add: s1_def ptr_ok_def)
  have sv1: "inv_served s1"
    by (rule inv_served_cong [OF sv0 p0]) (simp_all add: s1_def updNode_requested_nth)
  have n1: "inv_nodes s1"
    by (rule inv_nodes_cong [OF n0]) (simp_all add: s1_def updNode_requested_nth)
  have L1: "loop_inv nd s1" using p1 sv1 n1 nd by (simp add: loop_inv_def s1_def)
  have C1: "inv_claims_except nd ?A s1"
    using C unfolding inv_claims_except_def old_def s1_def
    by (auto simp add: updNode_requested_nth)
  have sub: "set (UnsortedList (mapOrder e) (Difference (requestedIPs (nodeObjs s1 ! nd)) old)) \<subseteq> ?A"
    by (auto simp add: r1)
  note f1 = fold_processNew [OF L1 C1 sub, of e, folded s2_def]
  have r2: "requestedIPs (nodeObjs s2 ! nd) = NewString ips" using f1(5) [of nd] r1 by simp
  note f2 = fold_processRemoved [OF f1(1), of e
      "UnsortedList (mapOrder e) (Difference old (requestedIPs (nodeObjs s2 ! nd)))", folded s3_def]
  have "inv_claims_except nd
          (?A - set (UnsortedList (mapOrder e) (Difference old (requestedIPs (nodeObjs s2 ! nd))))) s3"
    unfolding s3_def by (rule fold_processRemoved_inv_claims_except [OF f1(2)])
  moreover have "?A - set (UnsortedList (mapOrder e) (Difference old (requestedIPs (nodeObjs s2 ! nd))))
      = set ips"
    by (auto simp add: r2)
  ultimately have C3: "inv_claims_except nd (set ips) s3" by simp
  have r3: "requestedIPs (nodeObjs s3 ! nd) = NewString ips" using f2(4) [of nd] r2 by simp
  have ip3: "nodeIP (nodeObjs s3 ! nd) = nIP"
    using f2(3) [of nd] f1(4) [of nd] N by (simp add: s1_def updNode_requested_nth)
  have m3: "nodesByNodeIP s3 = nodesByNodeIP s0"
    using f2(2) f1(3) by (simp add: s1_def)
  have "inv_claims s3"
    unfolding inv_claims_def
  proof (intro allI impI)
    fix ip nd' assume reg: "nodesByEgressIP s3 ip = Some nd'"
    show "ip \<in> set (requestedIPs (nodeObjs s3 ! nd')) \<and>
          nodesByNodeIP s3 (nodeIP (nodeObjs s3 ! nd')) = Some nd'"
    proof (cases "nd' = nd")
      case True
      then have "ip \<in> set ips" using C3 reg by (auto simp add: inv_claims_except_def)
      then show ?thesis using True r3 ip3 m3 M by auto
    next
      case False
      then show ?thesis using C3 reg by (auto simp add: inv_claims_except_def)
    qed
  qed
  then show ?thesis using f2(1) by (simp add: inv_def loop_inv_def)
qed

lemma inv_D:
  assumes "inv s"
  shows "ptr_ok s" "inv_served s" "inv_nodes s" "inv_claims s"
  using assms by (simp_all add: inv_def)

lemma updateNodeEgress_inv:
  assumes "inv s"
  shows "inv (updateNodeEgress e s nIP ips)"
proof -
  note i = inv_D [OF assms]
  show ?thesis
  proof (cases "nodesByNodeIP s nIP")
    case None
    show ?thesis
    proof (cases "ips = []")
      case True
      then show ?thesis using None assms by (simp add: updateNodeEgress_def)
    next
      case False
      let ?nd = "length (nodeObjs s)"
      let ?s0 = "s\<lparr>nodeObjs := nodeObjs s @
                         [\<lparr>nodeIP = nIP, requestedIPs = NewString [], assignedIPs = NewString []\<rparr>],
                       nodesByNodeIP := (nodesByNodeIP s)(nIP \<mapsto> length (nodeObjs s))\<rparr>"
      have p0: "ptr_ok ?s0" using i(1) by (auto simp add: ptr_ok_def less_Suc_eq)
      have sv0: "inv_served ?s0"
        by (rule inv_served_cong [OF i(2) i(1)]) (simp_all add: nth_append)
      have n0: "inv_nodes ?s0"
        using i(3) i(1) unfolding inv_nodes_def ptr_ok_def by (auto simp add: nth_append)
      have L: "loop_inv ?nd ?s0" using p0 sv0 n0 by (simp add: loop_inv_def)
      have C: "inv_claims_except ?nd (set (requestedIPs (nodeObjs ?s0 ! ?nd))) ?s0"
        unfolding inv_claims_except_def
      proof (intro allI impI)
        fix ip nd' assume "nodesByEgressIP ?s0 ip = Some nd'"
        then have reg: "nodesByEgressIP s ip = Some nd'" by simp
        then have lt: "nd' < length (nodeObjs s)" using i(1) by (auto dest: ptr_okD)
        from reg i(4) have r: "ip \<in> set (requestedIPs (nodeObjs s ! nd'))"
          and m: "nodesByNodeIP s (nodeIP (nodeObjs s ! nd')) = Some nd'"
          by (auto simp add: inv_claims_def)
        from m None have "nodeIP (nodeObjs s ! nd') \<noteq> nIP" by auto
        then show "if nd' = ?nd then ip \<in> set (requestedIPs (nodeObjs ?s0 ! ?nd))
           else ip \<in> set (requestedIPs (nodeObjs ?s0 ! nd')) \<and>
                nodesByNodeIP ?s0 (nodeIP (nodeObjs ?s0 ! nd')) = Some nd'"
          using lt r m by (simp add: nth_append)
      qed
      have N: "nodeIP (nodeObjs ?s0 ! ?nd) = nIP" by simp
      have M: "nodesByNodeIP ?s0 nIP = Some ?nd \<or> ips = []" by simp
      show ?thesis
        using updateNodeEgress_body_inv [OF L C N M, of e] None False
        by (simp add: updateNodeEgress_def Let_def)
    qed
  next
    case (Some nd)
    let ?s0 = "if ips = [] then s\<lparr>nodesByNodeIP := (nodesByNodeIP s)(nIP := None)\<rparr> else s"
    have lt: "nd < length (nodeObjs s)" using i(1) Some by (rule ptr_okD)
    have ndip: "nodeIP (nodeObjs s ! nd) = nIP" using i(3) Some by (simp add: inv_nodes_def)
    have p0: "ptr_ok ?s0" using i(1) by (simp add: ptr_ok_def)
    have sv0: "inv_served ?s0"
      by (rule inv_served_cong [OF i(2) i(1)]) simp_all
    have n0: "inv_nodes ?s0" using i(3) by (simp add: inv_nodes_def)
    have L: "loop_inv nd ?s0" using p0 sv0 n0 lt by (simp add: loop_inv_def)
    have C: "inv_claims_except nd (set (requestedIPs (nodeObjs ?s0 ! nd))) ?s0"
      unfolding inv_claims_except_def
    proof (intro allI impI)
      fix ip nd' assume "nodesByEgressIP ?s0 ip = Some nd'"
      then have reg: "nodesByEgressIP s ip = Some nd'" by (simp split: if_splits)
      from reg i(4) have r: "ip \<in> set (requestedIPs (nodeObjs s ! nd'))"
        and m: "nodesByNodeIP s (nodeIP (nodeObjs s ! nd')) = Some nd'"
        by (auto simp add: inv_claims_def)
      from m Some have "nd' \<noteq> nd \<Longrightarrow> nodeIP (nodeObjs s ! nd') \<noteq> nIP" by auto
      then show "if nd' = nd then ip \<in> set (requestedIPs (nodeObjs ?s0 ! nd))
         else ip \<in> set (requestedIPs (nodeObjs ?s0 ! nd')) \<and>
              nodesByNodeIP ?s0 (nodeIP (nodeObjs ?s0 ! nd')) = Some nd'"
        using r m by auto
    qed
    have N: "nodeIP (nodeObjs ?s0 ! nd) = nIP" using ndip by simp
    have M: "nodesByNodeIP ?s0 nIP = Some nd \<or> ips = []" using Some by simp
    show ?thesis
      using updateNodeEgress_body_inv [OF L C N M, of e] Some
      by (simp add: updateNodeEgress_def Let_def)
  qed
qed

lemma inv_served_nsObjs:
  assumes "inv_served s"
    and "namespacesByEgressIP t = namespacesByEgressIP s" "nodesByEgressIP t = nodesByEgressIP s"
    and "nodeObjs t = nodeObjs s"
    and "\<And>q. q < length (nsObjs t) \<Longrightarrow> ns_nodeIP (nsObjs t ! q) \<noteq> '''' \<Longrightarrow>
           q < length (nsObjs s) \<and> assignedIP (nsObjs t ! q) = assignedIP (nsObjs s ! q)
           \<and> ns_nodeIP (nsObjs t ! q) = ns_nodeIP (nsObjs s ! q)"
  shows "inv_served t"
  unfolding inv_served_def served_def
proof (intro allI impI)
  fix q assume q: "q < length (nsObjs t)" "ns_nodeIP (nsObjs t ! q) \<noteq> ''''"
  note o = assms(5) [OF q]
  then have "served s q" using assms(1) q by (simp add: inv_served_def)
  then show "namespacesByEgressIP t (assignedIP (nsObjs t ! q)) = Some q \<and>
       (\<exists>nd. nodesByEgressIP t (assignedIP (nsObjs t ! q)) = Some nd \<and>
             assignedIP (nsObjs t ! q) \<in> set (assignedIPs (nodeObjs t ! nd)) \<and>
             nodeIP (nodeObjs t ! nd) = ns_nodeIP (nsObjs t ! q))"
    using o assms(2-4) by (simp add: served_def)
qed

lemma inv_served_updNs:
  assumes "inv_served s"
    and "ns_nodeIP (f (nsObjs s ! ns)) = ''''
         \<or> (assignedIP (f (nsObjs s ! ns)) = assignedIP (nsObjs s ! ns)
            \<and> ns_nodeIP (f (nsObjs s ! ns)) = ns_nodeIP (nsObjs s ! ns))"
  shows "inv_served (updNs ns f s)"
proof (rule inv_served_nsObjs [OF assms(1)])
  fix q
  assume "q < length (nsObjs (updNs ns f s))" "ns_nodeIP (nsObjs (updNs ns f s) ! q) \<noteq> ''''"
  then show "q < length (nsObjs s) \<and>
         assignedIP (nsObjs (updNs ns f s) ! q) = assignedIP (nsObjs s ! q) \<and>
         ns_nodeIP (nsObjs (updNs ns f s) ! q) = ns_nodeIP (nsObjs s ! q)"
    using assms(2) by (cases "q = ns") (auto simp add: nth_list_update)
qed simp_all

lemma inv_served_glog: "inv_served (glog m s) = inv_served s"
  by (simp add: inv_served_def served_def)

lemma inv_glog [simp]: "inv (glog m s) = inv s"
  by (simp add: inv_def inv_served_glog ptr_ok_def inv_nodes_def inv_claims_def)

lemma ptr_ok_updNs [simp]: "ptr_ok (updNs ns f s) = ptr_ok s"
  by (simp add: ptr_ok_def)

text \<open>The node side of the state is not written by the namespace operations.\<close>

lemma nodes_side_cong:
  assumes "inv_nodes s" "inv_claims s"
    and "nodesByNodeIP t = nodesByNodeIP s" "nodesByEgressIP t = nodesByEgressIP s"
    and "\<And>nd. nodeIP (nodeObjs t ! nd) = nodeIP (nodeObjs s ! nd)"
    and "\<And>nd. requestedIPs (nodeObjs t ! nd) = requestedIPs (nodeObjs s ! nd)"
  shows "inv_nodes t \<and> inv_claims t"
  using inv_nodes_cong [OF assms(1,3,5)] inv_claims_cong [OF assms(2,3,4,5,6)] by simp

lemma updateNamespaceEgress_nodes_side:
  "nodesByNodeIP (updateNamespaceEgress e s vn ip) = nodesByNodeIP s"
  "nodesByEgressIP (updateNamespaceEgress e s vn ip) = nodesByEgressIP s"
  "nodeIP (nodeObjs (updateNamespaceEgress e s vn ip) ! nd) = nodeIP (nodeObjs s ! nd)"
  "requestedIPs (nodeObjs (updateNamespaceEgress e s vn ip) ! nd) = requestedIPs (nodeObjs s ! nd)"
  by (auto simp add: updateNamespaceEgress_def Let_def maybeAdd_nodeObjs_nth
      deleteEgressIP_nodeObjs_nth split: option.splits)

lemma deleteNamespaceEgress_nodes_side:
  "nodesByNodeIP (deleteNamespaceEgress e s vn) = nodesByNodeIP s"
  "nodesByEgressIP (deleteNamespaceEgress e s vn) = nodesByEgressIP s"
  "nodeIP (nodeObjs (deleteNamespaceEgress e s vn) ! nd) = nodeIP (nodeObjs s ! nd)"
  "requestedIPs (nodeObjs (deleteNamespaceEgress e s vn) ! nd) = requestedIPs (nodeObjs s ! nd)"
  by (auto simp add: deleteNamespaceEgress_def Let_def
      deleteEgressIP_nodeObjs_nth split: option.splits)

lemma updateNamespaceEgress_ptr_served:
  assumes p: "ptr_ok s" and sv: "inv_served s"
  shows "ptr_ok (updateNamespaceEgress e s vn ip) \<and> inv_served (updateNamespaceEgress e s vn ip)"
proof -
  obtain ns s0 where s0: "(ns, s0) =
      (case namespacesByVNID s vn of
         None \<Rightarrow>
           (length (nsObjs s),
            s\<lparr>nsObjs := nsObjs s @
                 [\<lparr>vnid = vn, requestedIP = '''', assignedIP = '''', ns_nodeIP = ''''\<rparr>],
               namespacesByVNID := (namespacesByVNID s)(vn \<mapsto> length (nsObjs s))\<rparr>)
       | Some ns \<Rightarrow> (ns, s))"
    by (metis surj_pair)
  have p0: "ptr_ok s0" and lt: "ns < length (nsObjs s0)"
    using s0 p by (auto simp add: ptr_ok_def less_Suc_eq split: option.splits)
  have sv0: "inv_served s0"
  proof (cases "namespacesByVNID s vn")
    case None
    then have e0: "s0 = s\<lparr>nsObjs := nsObjs s @
                 [\<lparr>vnid = vn, requestedIP = '''', assignedIP = '''', ns_nodeIP = ''''\<rparr>],
               namespacesByVNID := (namespacesByVNID s)(vn \<mapsto> length (nsObjs s))\<rparr>"
      using s0 by simp
    show ?thesis
      by (rule inv_served_nsObjs [OF sv]) (auto simp add: e0 nth_append less_Suc_eq)
  next
    case (Some a)
    then show ?thesis using s0 sv by simp
  qed
  show ?thesis
  proof (cases "requestedIP (nsObjs s0 ! ns) = ip")
    case True
    then show ?thesis
      using p0 sv0 s0 [symmetric] by (simp add: updateNamespaceEgress_def Let_def)
  next
    case False
    show ?thesis
    proof (cases "namespacesByEgressIP s0 ip")
      case (Some oldNS)
      then show ?thesis
        using False p0 sv0 s0 [symmetric]
        by (simp add: updateNamespaceEgress_def Let_def inv_served_glog ptr_ok_def)
    next
      case None
      let ?s1 = "if assignedIP (nsObjs s0 ! ns) \<noteq> ''''
                 then updNs ns (\<lambda>n. n\<lparr>assignedIP := '''', ns_nodeIP := ''''\<rparr>)
                        ((deleteEgressIP e s0 ip)\<lparr>namespacesByEgressIP :=
                            (namespacesByEgressIP (deleteEgressIP e s0 ip))(ip := None)\<rparr>)
                 else s0"
      let ?s2 = "updNs ns (\<lambda>n. n\<lparr>requestedIP := ip\<rparr>) ?s1"
      let ?s3 = "?s2\<lparr>namespacesByEgressIP := (namespacesByEgressIP ?s2)(ip \<mapsto> ns)\<rparr>"
      have d: "deleteEgressIP e s0 ip = s0" using None by (simp add: deleteEgressIP_noop)
      have u: "s0\<lparr>namespacesByEgressIP := (namespacesByEgressIP s0)(ip := None)\<rparr> = s0"
        using None by (simp add: fun_upd_idem)
      have p1: "ptr_ok ?s1" using p0 by (simp add: d u)
      have sv1: "inv_served ?s1" using sv0 by (simp add: d u inv_served_updNs)
      have n1: "namespacesByEgressIP ?s1 ip = None" using None by (simp add: d)
      have l1: "length (nsObjs ?s1) = length (nsObjs s0)" by (simp add: d)
      have p2: "ptr_ok ?s2" using p1 by simp
      have sv2: "inv_served ?s2" using sv1 by (rule inv_served_updNs) simp
      have n2: "namespacesByEgressIP ?s2 ip = None" using n1 by simp
      have l2: "ns < length (nsObjs ?s2)" using lt l1 by simp
      have p3: "ptr_ok ?s3" using p2 l2 by (rule ptr_ok_register_ns)
      have sv3: "inv_served ?s3" using sv2 n2 by (rule inv_served_register_ns)
      have "updateNamespaceEgress e s vn ip = maybeAddEgressIP e ?s3 ip"
        using None False s0 [symmetric] by (simp add: updateNamespaceEgress_def Let_def)
      then show ?thesis using p3 sv3 by (simp add: maybeAdd_ptr_ok maybeAdd_inv_served)
    qed
  qed
qed

lemma updateNamespaceEgress_inv:
  assumes "inv s"
  shows "inv (updateNamespaceEgress e s vn ip)"
  using updateNamespaceEgress_ptr_served [OF inv_D(1,2) [OF assms], of e vn ip]
    nodes_side_cong [OF inv_D(3,4) [OF assms], of "updateNamespaceEgress e s vn ip"]
  by (simp add: inv_def updateNamespaceEgress_nodes_side)

lemma deleteNamespaceEgress_ptr_served:
  assumes p: "ptr_ok s" and sv: "inv_served s"
  shows "ptr_ok (deleteNamespaceEgress e s vn) \<and> inv_served (deleteNamespaceEgress e s vn)"
proof (cases "namespacesByVNID s vn")
  case None
  then show ?thesis using assms by (simp add: deleteNamespaceEgress_def)
next
  case (Some ns)
  let ?t0 = "updNs ns (\<lambda>n. n\<lparr>requestedIP := ''''\<rparr>) s"
  let ?ip = "assignedIP (nsObjs ?t0 ! ns)"
  let ?t1 = "deleteEgressIP e ?t0 ?ip"
  let ?s1 = "if assignedIP (nsObjs s ! ns) \<noteq> ''''
             then ?t1\<lparr>namespacesByEgressIP := (namespacesByEgressIP ?t1)(?ip := None)\<rparr>
             else s"
  have p0: "ptr_ok ?t0" using p by simp
  have sv0: "inv_served ?t0" using sv by (rule inv_served_updNs) simp
  have p1: "ptr_ok ?t1" using p0 by (rule deleteEgressIP_ptr_ok)
  have sv1: "inv_served ?t1" using p0 sv0 by (rule deleteEgressIP_inv_served)
  have "inv_served (?t1\<lparr>namespacesByEgressIP := (namespacesByEgressIP ?t1)(?ip := None)\<rparr>)"
    by (rule inv_served_unregister_ns [OF sv1])
      (use p0 sv0 in \<open>auto simp add: deleteEgressIP_unserved\<close>)
  then have sv': "inv_served ?s1" using sv by simp
  have "ptr_ok (?t1\<lparr>namespacesByEgressIP := (namespacesByEgressIP ?t1)(?ip := None)\<rparr>)"
    using p1 by (rule ptr_ok_unregister)
  then have p': "ptr_ok ?s1" using p by simp
  have r: "deleteNamespaceEgress e s vn = ?s1\<lparr>namespacesByVNID := (namespacesByVNID ?s1)(vn := None)\<rparr>"
    using Some by (simp add: deleteNamespaceEgress_def Let_def)
  have "inv_served (?s1\<lparr>namespacesByVNID := (namespacesByVNID ?s1)(vn := None)\<rparr>)"
    by (rule inv_served_nsObjs [OF sv']) simp_all
  moreover have "ptr_ok (?s1\<lparr>namespacesByVNID := (namespacesByVNID ?s1)(vn := None)\<rparr>)"
    using p' by (rule ptr_ok_unregister)
  ultimately show ?thesis unfolding r by simp
qed

lemma deleteNamespaceEgress_inv:
  assumes "inv s"
  shows "inv (deleteNamespaceEgress e s vn)"
  using deleteNamespaceEgress_ptr_served [OF inv_D(1,2) [OF assms], of e vn]
    nodes_side_cong [OF inv_D(3,4) [OF assms], of "deleteNamespaceEgress e s vn"]
  by (simp add: inv_def deleteNamespaceEgress_nodes_side)

lemma newEgressIPWatcher_inv: "inv (newEgressIPWatcher lIP mBit test)"
  by (simp add: inv_def newEgressIPWatcher_def ptr_ok_def inv_served_def inv_nodes_def inv_claims_def)

lemma reachable_inv: "reachable s \<Longrightarrow> inv s"
proof (induction rule: reachable.induct)
  case (reach_new lIP mBit test)
  show ?case by (rule newEgressIPWatcher_inv)
next
  case (reach_node s e nIP ips)
  then show ?case by (simp add: updateNodeEgress_inv)
next
  case (reach_ns s e vn ip)
  then show ?case by (simp add: updateNamespaceEgress_inv)
next
  case (reach_del s e vn)
  then show ?case by (simp add: deleteNamespaceEgress_inv)
next
  case (reach_hs s e d hs)
  then show ?case by (simp add: watchHostSubnets_def updateNodeEgress_inv)
next
  case (reach_netns s e d netns)
  then show ?case
    by (simp add: watchNetNamespaces_def Let_def updateNamespaceEgress_inv
        deleteNamespaceEgress_inv split: list.splits)
qed

section \<open>Served namespaces have a node (C1)\<close>

lemmas eval_defs =
  okEnv_def testWatcher_def realWatcher_def newEgressIPWatcher_def
  updateNodeEgress_def updateNamespaceEgress_def deleteNamespaceEgress_def
  watchHostSubnets_def watchNetNamespaces_def
  maybeAddEgressIP_def deleteEgressIP_def processNewEgressIP_def processRemovedEgressIP_def
  assignEgressIP_def releaseEgressIP_def perform_def glog_def updNode_def updNs_def
  NewString_def Has_def Insert_def Delete_def Difference_def UnsortedList_def Let_def
  getMarkForVNID_def markValue_def hex08x_def hexDigit_def drop_bit_eq_div





lemma servedFoo_nodeObjs:
  "nodeObjs servedFoo = [\<lparr>nodeIP = ''10.0.0.1'', requestedIPs = [''10.0.0.5''], assignedIPs = [''10.0.0.5'']\<rparr>]"
  unfolding servedFoo_def by (simp add: eval_defs)



section \<open>A changed request leaves the old IP in place (C2)\<close>

lemma foo_served_eval:
  "calls foo_served =
     [AddrAdd ''10.0.0.5'', AddEgressIPRules ''10.0.0.5'' ''0x01000006'',
      SetNamespaceEgressViaEgressIP 7 ''10.0.0.1'' ''0x01000006'']"
  "logs foo_served = []"
  "nsObjs foo_served =
     [\<lparr>vnid = 7, requestedIP = ''10.0.0.5'', assignedIP = ''10.0.0.5'', ns_nodeIP = ''10.0.0.1''\<rparr>]"
  "nodeObjs foo_served =
     [\<lparr>nodeIP = ''10.0.0.1'', requestedIPs = [''10.0.0.5''], assignedIPs = [''10.0.0.5'']\<rparr>]"
  "nodesByNodeIP foo_served = [''10.0.0.1'' \<mapsto> 0]"
  "nodesByEgressIP foo_served = [''10.0.0.5'' \<mapsto> 0]"
  "namespacesByVNID foo_served = [7 \<mapsto> 0]"
  "namespacesByEgressIP foo_served = [''10.0.0.5'' \<mapsto> 0]"
  "localIP foo_served = ''10.0.0.1''"
  "masqueradeBit foo_served = 1"
  "testMode foo_served = False"
  unfolding foo_served_def nodeA_claims_def by (simp_all add: eval_defs)

lemma updateNamespaceEgress_keeps_registrations:
  "namespacesByEgressIP s x = Some q \<Longrightarrow> x \<noteq> ip \<Longrightarrow>
   namespacesByEgressIP (updateNamespaceEgress e s vn ip) x = Some q"
  by (auto simp add: updateNamespaceEgress_def Let_def split: option.splits)

text \<open>
  C2: the code at the failing input. Namespace 7 is served on \<open>10.0.0.5\<close> by the local
  node and then requests \<open>10.0.0.6\<close>. The only backend call of the second request is the
  dropped rule for the new IP: the address and the NAT rule of \<open>10.0.0.5\<close> stay (no
  AddrDel, no DeleteEgressIPRules), \<open>10.0.0.5\<close> stays among the node's assignedIPs, and
  namespacesByEgressIP still maps \<open>10.0.0.5\<close> to the namespace.
\<close>

theorem changed_request_keeps_old_IP:
  "assignedIP (nsObjs foo_served ! 0) = ''10.0.0.5''
   \<and> calls foo_changed = calls foo_served @ [SetNamespaceEgressViaEgressIP 7 '''' ''0x01000006'']
   \<and> namespacesByEgressIP foo_changed ''10.0.0.5'' = Some 0
   \<and> namespacesByEgressIP foo_changed ''10.0.0.6'' = Some 0
   \<and> namespacesByVNID foo_changed 7 = Some 0
   \<and> nsObjs foo_changed ! 0
       = \<lparr>vnid = 7, requestedIP = ''10.0.0.6'', assignedIP = ''10.0.0.6'', ns_nodeIP = ''''\<rparr>
   \<and> assignedIPs (nodeObjs foo_changed ! 0) = [''10.0.0.5'']"
  unfolding foo_changed_def
  by (simp add: foo_served_eval updateNamespaceEgress_def maybeAddEgressIP_def deleteEgressIP_def
      Let_def updNs_def perform_def glog_def okEnv_def
      getMarkForVNID_def markValue_def hex08x_def hexDigit_def drop_bit_eq_div)

section \<open>The example states, and the handler of NetNamespace events\<close>







section \<open>Re-delivered events (C4)\<close>

lemma fold_processNew_keeps:
  "nodesByNodeIP (fold (processNewEgressIP e nd) L s) = nodesByNodeIP s"
  "nodeIP (nodeObjs (fold (processNewEgressIP e nd) L s) ! a) = nodeIP (nodeObjs s ! a)"
  "requestedIPs (nodeObjs (fold (processNewEgressIP e nd) L s) ! a) = requestedIPs (nodeObjs s ! a)"
proof -
  show "nodesByNodeIP (fold (processNewEgressIP e nd) L s) = nodesByNodeIP s"
    by (rule fold_inv [where P = "\<lambda>t. nodesByNodeIP t = nodesByNodeIP s"]) simp_all
  show "nodeIP (nodeObjs (fold (processNewEgressIP e nd) L s) ! a) = nodeIP (nodeObjs s ! a)"
    by (rule fold_inv [where P = "\<lambda>t. nodeIP (nodeObjs t ! a) = nodeIP (nodeObjs s ! a)"]) simp_all
  show "requestedIPs (nodeObjs (fold (processNewEgressIP e nd) L s) ! a) = requestedIPs (nodeObjs s ! a)"
    by (rule fold_inv [where P = "\<lambda>t. requestedIPs (nodeObjs t ! a) = requestedIPs (nodeObjs s ! a)"]) simp_all
qed

lemma fold_processRemoved_keeps:
  "nodesByNodeIP (fold (processRemovedEgressIP e nd) L s) = nodesByNodeIP s"
  "nodeIP (nodeObjs (fold (processRemovedEgressIP e nd) L s) ! a) = nodeIP (nodeObjs s ! a)"
  "requestedIPs (nodeObjs (fold (processRemovedEgressIP e nd) L s) ! a) = requestedIPs (nodeObjs s ! a)"
proof -
  show "nodesByNodeIP (fold (processRemovedEgressIP e nd) L s) = nodesByNodeIP s"
    by (rule fold_inv [where P = "\<lambda>t. nodesByNodeIP t = nodesByNodeIP s"]) simp_all
  show "nodeIP (nodeObjs (fold (processRemovedEgressIP e nd) L s) ! a) = nodeIP (nodeObjs s ! a)"
    by (rule fold_inv [where P = "\<lambda>t. nodeIP (nodeObjs t ! a) = nodeIP (nodeObjs s ! a)"]) simp_all
  show "requestedIPs (nodeObjs (fold (processRemovedEgressIP e nd) L s) ! a) = requestedIPs (nodeObjs s ! a)"
    by (rule fold_inv [where P = "\<lambda>t. requestedIPs (nodeObjs t ! a) = requestedIPs (nodeObjs s ! a)"]) simp_all
qed

text \<open>After updateNodeEgress the node is in the nodes map exactly if the list is not
  empty, and then its requested set is the list.\<close>

lemma updateNodeEgress_empty:
  "nodesByNodeIP (updateNodeEgress e s nIP []) nIP = None"
  by (simp add: updateNodeEgress_def Let_def fold_processNew_keeps fold_processRemoved_keeps
      split: option.splits)

lemma updateNodeEgress_nonempty:
  assumes "ptr_ok s" "ips \<noteq> []"
  shows "\<exists>nd. nodesByNodeIP (updateNodeEgress e s nIP ips) nIP = Some nd
           \<and> requestedIPs (nodeObjs (updateNodeEgress e s nIP ips) ! nd) = NewString ips"
proof (cases "nodesByNodeIP s nIP")
  case None
  then show ?thesis
    using assms(2)
    by (simp add: updateNodeEgress_def Let_def fold_processNew_keeps fold_processRemoved_keeps)
next
  case (Some nd)
  have "nd < length (nodeObjs s)" using assms(1) Some by (rule ptr_okD)
  then show ?thesis
    using assms(2) Some
    by (simp add: updateNodeEgress_def Let_def fold_processNew_keeps fold_processRemoved_keeps)
qed

lemma list_update_requested_same:
  "requestedIPs (xs ! nd) = r \<Longrightarrow> xs[nd := (xs ! nd)\<lparr>requestedIPs := r\<rparr>] = xs"
  by (cases "nd < length xs") (auto simp add: list_update_same_conv)

lemma updateNodeEgress_again:
  assumes "nodesByNodeIP t nIP = Some nd" "requestedIPs (nodeObjs t ! nd) = NewString ips"
    "ips \<noteq> []"
  shows "updateNodeEgress e t nIP ips = t"
proof -
  have u: "updNode nd (\<lambda>n. n\<lparr>requestedIPs := NewString ips\<rparr>) t = t"
    by (simp add: updNode_def list_update_requested_same [OF assms(2)])
  have "updateNodeEgress e t nIP ips =
      (let s1 = updNode nd (\<lambda>n. n\<lparr>requestedIPs := NewString ips\<rparr>) t;
           s2 = fold (processNewEgressIP e nd)
                  (UnsortedList (mapOrder e)
                     (Difference (requestedIPs (nodeObjs s1 ! nd)) (requestedIPs (nodeObjs t ! nd)))) s1
       in fold (processRemovedEgressIP e nd)
            (UnsortedList (mapOrder e)
               (Difference (requestedIPs (nodeObjs t ! nd)) (requestedIPs (nodeObjs s2 ! nd)))) s2)"
    using assms(1,3) by (simp add: updateNodeEgress_def Let_def)
  also have "\<dots> = t"
    unfolding u Let_def by (simp add: assms(2))
  finally show ?thesis .
qed

lemma updateNodeEgress_idem:
  assumes "ptr_ok s"
  shows "updateNodeEgress e' (updateNodeEgress e s nIP ips) nIP ips = updateNodeEgress e s nIP ips"
proof (cases "ips = []")
  case True
  have "nodesByNodeIP (updateNodeEgress e s nIP []) nIP = None" by (rule updateNodeEgress_empty)
  then show ?thesis using True by (simp add: updateNodeEgress_def [of e' "updateNodeEgress e s nIP []"])
next
  case False
  from updateNodeEgress_nonempty [OF assms False, of e nIP] obtain nd
    where "nodesByNodeIP (updateNodeEgress e s nIP ips) nIP = Some nd"
      "requestedIPs (nodeObjs (updateNodeEgress e s nIP ips) ! nd) = NewString ips" by blast
  then show ?thesis using False by (rule updateNodeEgress_again)
qed

text \<open>After updateNamespaceEgress the namespace is known, and it either requests the
  IP or another namespace is registered for the IP.\<close>

lemma updateNamespaceEgress_result:
  assumes p: "ptr_ok s"
  shows "\<exists>ns. namespacesByVNID (updateNamespaceEgress e s vn ip) vn = Some ns
           \<and> (requestedIP (nsObjs (updateNamespaceEgress e s vn ip) ! ns) = ip
               \<or> namespacesByEgressIP (updateNamespaceEgress e s vn ip) ip \<noteq> None)"
proof -
  obtain ns s0 where s0: "(ns, s0) =
      (case namespacesByVNID s vn of
         None \<Rightarrow>
           (length (nsObjs s),
            s\<lparr>nsObjs := nsObjs s @
                 [\<lparr>vnid = vn, requestedIP = '''', assignedIP = '''', ns_nodeIP = ''''\<rparr>],
               namespacesByVNID := (namespacesByVNID s)(vn \<mapsto> length (nsObjs s))\<rparr>)
       | Some ns \<Rightarrow> (ns, s))"
    by (metis surj_pair)
  have p0: "ptr_ok s0" and lt: "ns < length (nsObjs s0)" and v0: "namespacesByVNID s0 vn = Some ns"
    using s0 p by (auto simp add: ptr_ok_def less_Suc_eq split: option.splits)
  show ?thesis
  proof (cases "requestedIP (nsObjs s0 ! ns) = ip")
    case True
    then show ?thesis
      using v0 s0 [symmetric] by (simp add: updateNamespaceEgress_def Let_def)
  next
    case False
    show ?thesis
    proof (cases "namespacesByEgressIP s0 ip")
      case (Some oldNS)
      then show ?thesis
        using False v0 s0 [symmetric] by (simp add: updateNamespaceEgress_def Let_def)
    next
      case None
      let ?s1 = "if assignedIP (nsObjs s0 ! ns) \<noteq> ''''
                 then updNs ns (\<lambda>n. n\<lparr>assignedIP := '''', ns_nodeIP := ''''\<rparr>)
                        ((deleteEgressIP e s0 ip)\<lparr>namespacesByEgressIP :=
                            (namespacesByEgressIP (deleteEgressIP e s0 ip))(ip := None)\<rparr>)
                 else s0"
      let ?s2 = "updNs ns (\<lambda>n. n\<lparr>requestedIP := ip\<rparr>) ?s1"
      let ?s3 = "?s2\<lparr>namespacesByEgressIP := (namespacesByEgressIP ?s2)(ip \<mapsto> ns)\<rparr>"
      have d: "deleteEgressIP e s0 ip = s0" using None by (simp add: deleteEgressIP_noop)
      have p1: "ptr_ok ?s1" using p0 by (simp add: d ptr_ok_unregister)
      have l2: "ns < length (nsObjs ?s2)" using lt by (simp add: d)
      have p2: "ptr_ok ?s2" using p1 by simp
      have p3: "ptr_ok ?s3" using p2 l2 by (rule ptr_ok_register_ns)
      have r3: "requestedIP (nsObjs ?s3 ! ns) = ip" using lt by (simp add: d)
      have n3: "namespacesByEgressIP ?s3 ip = Some ns" by simp
      have v3: "namespacesByVNID ?s3 vn = Some ns" using v0 by (simp add: d)
      have "updateNamespaceEgress e s vn ip = maybeAddEgressIP e ?s3 ip"
        using None False s0 [symmetric] by (simp add: updateNamespaceEgress_def Let_def)
      then show ?thesis
        using maybeAdd_nsObjs_self(2) [OF p3 n3, of e] r3 v3 by simp
    qed
  qed
qed

lemma updateNamespaceEgress_again:
  assumes "namespacesByVNID t vn = Some ns"
    and "requestedIP (nsObjs t ! ns) = ip \<or> namespacesByEgressIP t ip \<noteq> None"
  shows "updateNamespaceEgress e t vn ip = t
       \<or> (\<exists>a b. updateNamespaceEgress e t vn ip = glog (MultipleNetNamespacesClaiming ip a b) t)"
proof (cases "requestedIP (nsObjs t ! ns) = ip")
  case True
  then show ?thesis using assms(1) by (simp add: updateNamespaceEgress_def)
next
  case False
  then obtain oldNS where "namespacesByEgressIP t ip = Some oldNS" using assms(2) by auto
  then have "updateNamespaceEgress e t vn ip
      = glog (MultipleNetNamespacesClaiming ip (vnid (nsObjs t ! ns)) (vnid (nsObjs t ! oldNS))) t"
    using False assms(1) by (simp add: updateNamespaceEgress_def)
  then show ?thesis by blast
qed

text \<open>
  C4. In a reachable state, a second updateNodeEgress with the same arguments returns
  the state of the first, whatever the environment of the second call. A second
  updateNamespaceEgress with the same arguments changes nothing but the log: it makes no
  backend call, and at most logs once more that another namespace claims the IP.
\<close>

theorem redelivery_is_noop:
  assumes "reachable s"
  shows "updateNodeEgress e' (updateNodeEgress e s nIP ips) nIP ips = updateNodeEgress e s nIP ips
       \<and> updateNamespaceEgress e' (updateNamespaceEgress e s vn ip) vn ip
           = (updateNamespaceEgress e s vn ip)
               \<lparr>logs := logs (updateNamespaceEgress e' (updateNamespaceEgress e s vn ip) vn ip)\<rparr>
       \<and> calls (updateNamespaceEgress e' (updateNamespaceEgress e s vn ip) vn ip)
           = calls (updateNamespaceEgress e s vn ip)
       \<and> (logs (updateNamespaceEgress e' (updateNamespaceEgress e s vn ip) vn ip)
             = logs (updateNamespaceEgress e s vn ip)
           \<or> (\<exists>a b. logs (updateNamespaceEgress e' (updateNamespaceEgress e s vn ip) vn ip)
                 = logs (updateNamespaceEgress e s vn ip) @ [MultipleNetNamespacesClaiming ip a b]))"
proof -
  have p: "ptr_ok s" using assms by (simp add: reachable_inv inv_D)
  let ?t = "updateNamespaceEgress e s vn ip"
  from updateNamespaceEgress_result [OF p, of e vn ip] obtain ns
    where "namespacesByVNID ?t vn = Some ns"
      "requestedIP (nsObjs ?t ! ns) = ip \<or> namespacesByEgressIP ?t ip \<noteq> None" by blast
  then have "updateNamespaceEgress e' ?t vn ip = ?t
       \<or> (\<exists>a b. updateNamespaceEgress e' ?t vn ip = glog (MultipleNetNamespacesClaiming ip a b) ?t)"
    by (rule updateNamespaceEgress_again)
  then have "updateNamespaceEgress e' ?t vn ip = ?t\<lparr>logs := logs (updateNamespaceEgress e' ?t vn ip)\<rparr>
       \<and> calls (updateNamespaceEgress e' ?t vn ip) = calls ?t
       \<and> (logs (updateNamespaceEgress e' ?t vn ip) = logs ?t
           \<or> (\<exists>a b. logs (updateNamespaceEgress e' ?t vn ip)
                 = logs ?t @ [MultipleNetNamespacesClaiming ip a b]))"
    by (auto simp add: glog_def)
  then show ?thesis using updateNodeEgress_idem [OF p] by simp
qed

lemma reachable_realWatcher: "reachable realWatcher"
  unfolding realWatcher_def by (rule reachable.intros)

theorem redelivery_is_noop_witness:
  "reachable realWatcher
   \<and> updateNodeEgress okEnv nodeA_claims ''10.0.0.1'' [''10.0.0.5''] = nodeA_claims
   \<and> calls (updateNamespaceEgress okEnv (updateNamespaceEgress okEnv realWatcher 7 ''10.0.0.5'') 7 ''10.0.0.5'')
       = calls (updateNamespaceEgress okEnv realWatcher 7 ''10.0.0.5'')"
  using redelivery_is_noop [OF reachable_realWatcher, of okEnv okEnv "''10.0.0.1''" "[''10.0.0.5'']" 7 "''10.0.0.5''"]
  unfolding nodeA_claims_def [symmetric]
  by (simp add: reachable_realWatcher)

section \<open>The order of the node's claim and the namespace's request (C5)\<close>

text \<open>Whether assignEgressIP fails depends on the state only through localIP and
  testMode.\<close>

lemma assignEgressIP_fst_cong:
  "localIP s' = localIP s \<Longrightarrow> testMode s' = testMode s \<Longrightarrow>
   fst (assignEgressIP e s' ip m) = fst (assignEgressIP e s ip m)"
  by (simp add: assignEgressIP_def Let_def)

text \<open>maybeAddEgressIP when a node is registered for the IP and has not yet marked it
  assigned.\<close>

lemma maybeAdd_claimed:
  assumes ns: "namespacesByEgressIP s ip = Some ns" and nd: "nodesByEgressIP s ip = Some nd"
    and lns: "ns < length (nsObjs s)" and lnd: "nd < length (nodeObjs s)"
    and na: "ip \<notin> set (assignedIPs (nodeObjs s ! nd))"
  shows "assignedIP (nsObjs (maybeAddEgressIP e s ip) ! ns) = ip"
    and "ns_nodeIP (nsObjs (maybeAddEgressIP e s ip) ! ns) =
           (if nodeIP (nodeObjs s ! nd) = localIP s
               \<and> fst (assignEgressIP e s ip (getMarkForVNID (vnid (nsObjs s ! ns)) (masqueradeBit s))) \<noteq> None
            then '''' else nodeIP (nodeObjs s ! nd))"
proof -
  let ?s' = "updNode nd (\<lambda>n. n\<lparr>assignedIPs := Insert (assignedIPs n) ip\<rparr>) s"
  let ?m = "getMarkForVNID (vnid (nsObjs s ! ns)) (masqueradeBit s)"
  have c: "fst (assignEgressIP e ?s' ip ?m) = fst (assignEgressIP e s ip ?m)"
    by (rule assignEgressIP_fst_cong) simp_all
  show "assignedIP (nsObjs (maybeAddEgressIP e s ip) ! ns) = ip"
    using assms
    by (auto simp add: maybeAddEgressIP_def Let_def case_prod_beta assign_fields
        split: option.splits)
  show "ns_nodeIP (nsObjs (maybeAddEgressIP e s ip) ! ns) =
           (if nodeIP (nodeObjs s ! nd) = localIP s \<and> fst (assignEgressIP e s ip ?m) \<noteq> None
            then '''' else nodeIP (nodeObjs s ! nd))"
    using assms c
    by (auto simp add: maybeAddEgressIP_def Let_def case_prod_beta assign_fields
        split: option.splits)
qed

lemma maybeAdd_unrequested:
  "namespacesByEgressIP s ip = None \<Longrightarrow> maybeAddEgressIP e s ip = s"
  by (simp add: maybeAddEgressIP_def)

lemma UnsortedList_single [simp]: "UnsortedList r [x] = [x]"
  by (simp add: UnsortedList_def)

lemma NewString_single [simp]: "NewString [x] = [x]"
  by (simp add: NewString_def)

lemma Difference_Nil [simp]: "Difference [] s = []" "Difference s [] = s"
  by (simp_all add: Difference_def)

text \<open>The first claim of a node not yet known, for an IP not yet registered.\<close>

lemma updateNodeEgress_first_claim:
  assumes "nodesByNodeIP s n = None" "nodesByEgressIP s x = None"
  shows "updateNodeEgress e s n [x] =
           maybeAddEgressIP e
             (s\<lparr>nodesByNodeIP := (nodesByNodeIP s)(n \<mapsto> length (nodeObjs s)),
                nodeObjs := nodeObjs s @ [\<lparr>nodeIP = n, requestedIPs = [x], assignedIPs = []\<rparr>],
                nodesByEgressIP := (nodesByEgressIP s)(x \<mapsto> length (nodeObjs s))\<rparr>) x"
  using assms
  by (simp add: updateNodeEgress_def Let_def updNode_def processNewEgressIP_def)

text \<open>The first request of a namespace not yet known, for an IP not yet registered.\<close>

lemma updateNamespaceEgress_first_request:
  assumes "namespacesByVNID s v = None" "namespacesByEgressIP s x = None" "x \<noteq> ''''"
  shows "updateNamespaceEgress e s v x =
           maybeAddEgressIP e
             (s\<lparr>namespacesByVNID := (namespacesByVNID s)(v \<mapsto> length (nsObjs s)),
                nsObjs := nsObjs s @ [\<lparr>vnid = v, requestedIP = x, assignedIP = '''', ns_nodeIP = ''''\<rparr>],
                namespacesByEgressIP := (namespacesByEgressIP s)(x \<mapsto> length (nsObjs s))\<rparr>) x"
  using assms
  by (simp add: updateNamespaceEgress_def Let_def updNs_def)

lemma node_then_namespace:
  fixes e :: env
  assumes nn: "nodesByNodeIP s n = None" and ne: "nodesByEgressIP s x = None"
    and vn: "namespacesByVNID s v = None" and ve: "namespacesByEgressIP s x = None"
    and x: "x \<noteq> ''''"
  defines "t \<equiv> updateNamespaceEgress e (updateNodeEgress e s n [x]) v x"
  shows "namespacesByVNID t v = Some (length (nsObjs s))"
    and "assignedIP (nsObjs t ! length (nsObjs s)) = x"
    and "ns_nodeIP (nsObjs t ! length (nsObjs s)) =
           (if n = localIP s \<and> fst (assignEgressIP e s x (getMarkForVNID v (masqueradeBit s))) \<noteq> None
            then '''' else n)"
proof -
  let ?sN = "s\<lparr>nodesByNodeIP := (nodesByNodeIP s)(n \<mapsto> length (nodeObjs s)),
                nodeObjs := nodeObjs s @ [\<lparr>nodeIP = n, requestedIPs = [x], assignedIPs = []\<rparr>],
                nodesByEgressIP := (nodesByEgressIP s)(x \<mapsto> length (nodeObjs s))\<rparr>"
  let ?sNN = "?sN\<lparr>namespacesByVNID := (namespacesByVNID ?sN)(v \<mapsto> length (nsObjs ?sN)),
                nsObjs := nsObjs ?sN @ [\<lparr>vnid = v, requestedIP = x, assignedIP = '''', ns_nodeIP = ''''\<rparr>],
                namespacesByEgressIP := (namespacesByEgressIP ?sN)(x \<mapsto> length (nsObjs ?sN))\<rparr>"
  have 1: "updateNodeEgress e s n [x] = ?sN"
    using ve by (simp add: updateNodeEgress_first_claim [OF nn ne] maybeAdd_unrequested)
  have 2: "t = maybeAddEgressIP e ?sNN x"
    unfolding t_def 1
    by (rule updateNamespaceEgress_first_request) (use vn ve x in simp_all)
  have c: "fst (assignEgressIP e ?sNN x m) = fst (assignEgressIP e s x m)" for m
    by (rule assignEgressIP_fst_cong) simp_all
  note m = maybeAdd_claimed [where s = ?sNN and ip = x and ns = "length (nsObjs s)"
      and nd = "length (nodeObjs s)" and e = e]
  show "namespacesByVNID t v = Some (length (nsObjs s))" unfolding 2 by simp
  show "assignedIP (nsObjs t ! length (nsObjs s)) = x" unfolding 2 by (rule m(1)) simp_all
  have "ns_nodeIP (nsObjs t ! length (nsObjs s)) =
           (if nodeIP (nodeObjs ?sNN ! length (nodeObjs s)) = localIP ?sNN
               \<and> fst (assignEgressIP e ?sNN x
                     (getMarkForVNID (vnid (nsObjs ?sNN ! length (nsObjs s))) (masqueradeBit ?sNN))) \<noteq> None
            then '''' else nodeIP (nodeObjs ?sNN ! length (nodeObjs s)))"
    unfolding 2 by (rule m(2)) simp_all
  then show "ns_nodeIP (nsObjs t ! length (nsObjs s)) =
           (if n = localIP s \<and> fst (assignEgressIP e s x (getMarkForVNID v (masqueradeBit s))) \<noteq> None
            then '''' else n)"
    unfolding c by auto
qed

lemma namespace_then_node:
  fixes e :: env
  assumes p: "ptr_ok s"
    and nn: "nodesByNodeIP s n = None" and ne: "nodesByEgressIP s x = None"
    and vn: "namespacesByVNID s v = None" and ve: "namespacesByEgressIP s x = None"
    and x: "x \<noteq> ''''"
  defines "t \<equiv> updateNodeEgress e (updateNamespaceEgress e s v x) n [x]"
  shows "namespacesByVNID t v = Some (length (nsObjs s))"
    and "assignedIP (nsObjs t ! length (nsObjs s)) = x"
    and "ns_nodeIP (nsObjs t ! length (nsObjs s)) =
           (if n = localIP s \<and> fst (assignEgressIP e s x (getMarkForVNID v (masqueradeBit s))) \<noteq> None
            then '''' else n)"
proof -
  let ?sS = "s\<lparr>namespacesByVNID := (namespacesByVNID s)(v \<mapsto> length (nsObjs s)),
                nsObjs := nsObjs s @ [\<lparr>vnid = v, requestedIP = x, assignedIP = '''', ns_nodeIP = ''''\<rparr>],
                namespacesByEgressIP := (namespacesByEgressIP s)(x \<mapsto> length (nsObjs s))\<rparr>"
  let ?t1 = "maybeAddEgressIP e ?sS x"
  let ?tN = "?t1\<lparr>nodesByNodeIP := (nodesByNodeIP ?t1)(n \<mapsto> length (nodeObjs ?t1)),
                nodeObjs := nodeObjs ?t1 @ [\<lparr>nodeIP = n, requestedIPs = [x], assignedIPs = []\<rparr>],
                nodesByEgressIP := (nodesByEgressIP ?t1)(x \<mapsto> length (nodeObjs ?t1))\<rparr>"
  have pS: "ptr_ok ?sS" using p by (auto simp add: ptr_ok_def less_Suc_eq)
  have 1: "updateNamespaceEgress e s v x = ?t1"
    by (rule updateNamespaceEgress_first_request [OF vn ve]) (use x in simp)
  have 2: "t = maybeAddEgressIP e ?tN x"
    unfolding t_def 1
    by (rule updateNodeEgress_first_claim) (use nn ne in simp_all)
  have vS: "vnid (nsObjs ?t1 ! length (nsObjs s)) = v"
    using maybeAdd_nsObjs_self(1) [OF pS, of x "length (nsObjs s)" e] by simp
  have nO: "nodeObjs ?t1 = nodeObjs s"
    using ne by (simp add: maybeAdd_nodeObjs)
  have c: "fst (assignEgressIP e ?tN x m) = fst (assignEgressIP e s x m)" for m
    by (rule assignEgressIP_fst_cong) simp_all
  note m = maybeAdd_claimed [where s = ?tN and ip = x and ns = "length (nsObjs s)"
      and nd = "length (nodeObjs s)" and e = e]
  show "namespacesByVNID t v = Some (length (nsObjs s))" unfolding 2 by simp
  show "assignedIP (nsObjs t ! length (nsObjs s)) = x"
    unfolding 2 by (rule m(1)) (simp_all add: nO)
  have "ns_nodeIP (nsObjs t ! length (nsObjs s)) =
           (if nodeIP (nodeObjs ?tN ! length (nodeObjs s)) = localIP ?tN
               \<and> fst (assignEgressIP e ?tN x
                     (getMarkForVNID (vnid (nsObjs ?tN ! length (nsObjs s))) (masqueradeBit ?tN))) \<noteq> None
            then '''' else nodeIP (nodeObjs ?tN ! length (nodeObjs s)))"
    unfolding 2 by (rule m(2)) (simp_all add: nO)
  then show "ns_nodeIP (nsObjs t ! length (nsObjs s)) =
           (if n = localIP s \<and> fst (assignEgressIP e s x (getMarkForVNID v (masqueradeBit s))) \<noteq> None
            then '''' else n)"
    unfolding c using vS by (auto simp add: nO)
qed

text \<open>
  C5, as the code has it. From a reachable state in which node \<open>n\<close>, namespace \<open>v\<close>
  and the non-empty IP \<open>x\<close> are not registered, updateNodeEgress \<open>n [x]\<close> and
  updateNamespaceEgress \<open>v x\<close> give, in either order, the same assignedIP and nodeIP
  for the namespace: \<open>x\<close> and \<open>n\<close>, or \<open>x\<close> and the empty string when \<open>n\<close> is
  the local node and assignEgressIP fails.
\<close>

theorem either_order_same_assignment:
  assumes "reachable s"
    and "nodesByNodeIP s n = None" and "nodesByEgressIP s x = None"
    and "namespacesByVNID s v = None" and "namespacesByEgressIP s x = None"
    and "x \<noteq> ''''"
  shows "\<exists>ns r.
           r = (if n = localIP s
                   \<and> fst (assignEgressIP e s x (getMarkForVNID v (masqueradeBit s))) \<noteq> None
                then '''' else n)
         \<and> namespacesByVNID (updateNamespaceEgress e (updateNodeEgress e s n [x]) v x) v = Some ns
         \<and> assignedIP (nsObjs (updateNamespaceEgress e (updateNodeEgress e s n [x]) v x) ! ns) = x
         \<and> ns_nodeIP (nsObjs (updateNamespaceEgress e (updateNodeEgress e s n [x]) v x) ! ns) = r
         \<and> namespacesByVNID (updateNodeEgress e (updateNamespaceEgress e s v x) n [x]) v = Some ns
         \<and> assignedIP (nsObjs (updateNodeEgress e (updateNamespaceEgress e s v x) n [x]) ! ns) = x
         \<and> ns_nodeIP (nsObjs (updateNodeEgress e (updateNamespaceEgress e s v x) n [x]) ! ns) = r"
proof -
  have p: "ptr_ok s" using assms(1) by (simp add: reachable_inv inv_D)
  show ?thesis
    using node_then_namespace [OF assms(2-6), of e] namespace_then_node [OF p assms(2-6), of e]
    by blast
qed

theorem either_order_same_assignment_witness:
  "reachable realWatcher
   \<and> nodesByNodeIP realWatcher ''10.0.0.1'' = None
   \<and> nodesByEgressIP realWatcher ''10.0.0.5'' = None
   \<and> namespacesByVNID realWatcher 7 = None
   \<and> namespacesByEgressIP realWatcher ''10.0.0.5'' = None
   \<and> (\<exists>ns.
        namespacesByVNID (updateNamespaceEgress okEnv
            (updateNodeEgress okEnv realWatcher ''10.0.0.1'' [''10.0.0.5'']) 7 ''10.0.0.5'') 7 = Some ns
      \<and> ns_nodeIP (nsObjs (updateNamespaceEgress okEnv
            (updateNodeEgress okEnv realWatcher ''10.0.0.1'' [''10.0.0.5'']) 7 ''10.0.0.5'') ! ns)
          = ''10.0.0.1''
      \<and> namespacesByVNID (updateNodeEgress okEnv
            (updateNamespaceEgress okEnv realWatcher 7 ''10.0.0.5'') ''10.0.0.1'' [''10.0.0.5'']) 7 = Some ns
      \<and> ns_nodeIP (nsObjs (updateNodeEgress okEnv
            (updateNamespaceEgress okEnv realWatcher 7 ''10.0.0.5'') ''10.0.0.1'' [''10.0.0.5'']) ! ns)
          = ''10.0.0.1'')"
proof -
  have h: "nodesByNodeIP realWatcher ''10.0.0.1'' = None"
    "nodesByEgressIP realWatcher ''10.0.0.5'' = None"
    "namespacesByVNID realWatcher 7 = None"
    "namespacesByEgressIP realWatcher ''10.0.0.5'' = None"
    "''10.0.0.5'' \<noteq> ''''"
    by (simp_all add: realWatcher_def newEgressIPWatcher_def)
  have ok: "fst (assignEgressIP okEnv realWatcher ''10.0.0.5''
              (getMarkForVNID 7 (masqueradeBit realWatcher))) = None"
    by (simp add: assignEgressIP_def realWatcher_def newEgressIPWatcher_def okEnv_def Let_def)
  show ?thesis
    using either_order_same_assignment [OF reachable_realWatcher h, of okEnv] ok h
      reachable_realWatcher
    by auto
qed

text \<open>
  C5, as the claim states it, fails when the node is the local node and claims its own
  IP: assignEgressIP refuses, and in both orders the namespace ends with the assignedIP
  \<open>10.0.0.1\<close> and an empty nodeIP, not with the node's IP.
\<close>

theorem either_order_selfIP_counterexample:
  "nodesByNodeIP realWatcher ''10.0.0.1'' = None
   \<and> nodesByEgressIP realWatcher ''10.0.0.1'' = None
   \<and> namespacesByVNID realWatcher 7 = None
   \<and> namespacesByEgressIP realWatcher ''10.0.0.1'' = None
   \<and> namespacesByVNID selfIP_node_first 7 = Some 0
   \<and> nsObjs selfIP_node_first ! 0
       = \<lparr>vnid = 7, requestedIP = ''10.0.0.1'', assignedIP = ''10.0.0.1'', ns_nodeIP = ''''\<rparr>
   \<and> namespacesByVNID selfIP_ns_first 7 = Some 0
   \<and> nsObjs selfIP_ns_first ! 0
       = \<lparr>vnid = 7, requestedIP = ''10.0.0.1'', assignedIP = ''10.0.0.1'', ns_nodeIP = ''''\<rparr>"
  unfolding selfIP_node_first_def selfIP_ns_first_def
  by (simp add: eval_defs)

section \<open>A second node claims a registered egress IP (C3)\<close>

lemma quiet_refl [simp]: "quiet ip a s s"
  by (simp add: quiet_def)

lemma quiet_trans: "quiet ip a s t \<Longrightarrow> quiet ip a t u \<Longrightarrow> quiet ip a s u"
  by (auto simp add: quiet_def)

lemma quiet_glog: "quiet ip a s t \<Longrightarrow> quiet ip a s (glog m t)"
  by (auto simp add: quiet_def)

lemma quiet_perform: "\<not> assigns ip c \<Longrightarrow> quiet ip a s t \<Longrightarrow> quiet ip a s (perform c t)"
  by (auto simp add: quiet_def)

lemma quiet_updNode: "nd \<noteq> a \<Longrightarrow> quiet ip a s (updNode nd f t) = quiet ip a s t"
  by (simp add: quiet_def)

lemma quiet_updNs [simp]: "quiet ip a s (updNs ns f t) = quiet ip a s t"
  by (simp add: quiet_def)

lemma assignEgressIP_quiet:
  "ip' \<noteq> ip \<Longrightarrow> quiet ip a s (snd (assignEgressIP e s ip' m))"
  by (simp add: assignEgressIP_def Let_def quiet_perform quiet_glog)

lemma releaseEgressIP_quiet:
  "quiet ip a s (snd (releaseEgressIP e s ip' m))"
  by (simp add: releaseEgressIP_def Let_def quiet_perform quiet_glog)

lemma maybeAdd_quiet:
  assumes "ip' \<noteq> ip" "nodesByEgressIP s ip' \<noteq> Some a"
  shows "quiet ip a s (maybeAddEgressIP e s ip')"
proof -
  have q: "quiet ip a s (snd (assignEgressIP e (updNode nd f s) ip' m))" if "nd \<noteq> a" for nd f m
    using assignEgressIP_quiet [OF assms(1), of a "updNode nd f s" e m] that
    by (auto intro: quiet_trans [of ip a s "updNode nd f s"] simp add: quiet_updNode)
  show ?thesis
    using assms(2)
    by (auto simp add: maybeAddEgressIP_def Let_def case_prod_beta
        quiet_perform quiet_glog quiet_updNode q split: option.splits)
qed

lemma deleteEgressIP_quiet:
  assumes "nodesByEgressIP s ip' \<noteq> Some a"
  shows "quiet ip a s (deleteEgressIP e s ip')"
  using assms
  by (auto simp add: deleteEgressIP_def Let_def case_prod_beta
      quiet_perform quiet_glog quiet_updNode releaseEgressIP_quiet split: option.splits)

text \<open>The loop bodies, for a node \<open>nd\<close> other than the registered claimant \<open>a\<close> of \<open>ip\<close>.\<close>

lemma processNew_other:
  assumes "nodesByEgressIP s ip = Some a" "nd \<noteq> a"
  shows "nodesByEgressIP (processNewEgressIP e nd ip' s) ip = Some a"
    and "quiet ip a s (processNewEgressIP e nd ip' s)"
proof -
  show "nodesByEgressIP (processNewEgressIP e nd ip' s) ip = Some a"
    using assms by (auto simp add: processNewEgressIP_def split: option.splits)
  show "quiet ip a s (processNewEgressIP e nd ip' s)"
  proof (cases "nodesByEgressIP s ip'")
    case (Some old)
    then show ?thesis by (simp add: processNewEgressIP_def quiet_glog)
  next
    case None
    then have ne: "ip' \<noteq> ip" using assms(1) by auto
    let ?s' = "s\<lparr>nodesByEgressIP := (nodesByEgressIP s)(ip' \<mapsto> nd)\<rparr>"
    have "quiet ip a ?s' (maybeAddEgressIP e ?s' ip')"
      by (rule maybeAdd_quiet [OF ne]) (use assms(2) in simp)
    then have "quiet ip a s (maybeAddEgressIP e ?s' ip')"
      by (simp add: quiet_def)
    then show ?thesis using None by (simp add: processNewEgressIP_def)
  qed
qed

lemma processRemoved_other:
  assumes "nodesByEgressIP s ip = Some a" "nd \<noteq> a"
  shows "nodesByEgressIP (processRemovedEgressIP e nd ip' s) ip = Some a"
    and "quiet ip a s (processRemovedEgressIP e nd ip' s)"
proof -
  show "nodesByEgressIP (processRemovedEgressIP e nd ip' s) ip = Some a"
    using assms by (auto simp add: processRemovedEgressIP_def Let_def)
  show "quiet ip a s (processRemovedEgressIP e nd ip' s)"
  proof (cases "nodesByEgressIP s ip' = Some nd")
    case False
    then show ?thesis by (simp add: processRemovedEgressIP_def)
  next
    case True
    have "quiet ip a s (deleteEgressIP e s ip')"
      by (rule deleteEgressIP_quiet) (use True assms(2) in simp)
    then have "quiet ip a s ((deleteEgressIP e s ip')\<lparr>nodesByEgressIP :=
        (nodesByEgressIP (deleteEgressIP e s ip'))(ip' := None)\<rparr>)"
      by (simp add: quiet_def)
    then show ?thesis using True by (simp add: processRemovedEgressIP_def Let_def)
  qed
qed

lemma fold_other:
  assumes step: "\<And>x s. nodesByEgressIP s ip = Some a \<Longrightarrow>
      nodesByEgressIP (f x s) ip = Some a \<and> quiet ip a s (f x s)"
    and "nodesByEgressIP s ip = Some a"
  shows "nodesByEgressIP (fold f L s) ip = Some a \<and> quiet ip a s (fold f L s)"
  using assms(2)
proof (induction L arbitrary: s)
  case Nil
  then show ?case by simp
next
  case (Cons x L)
  from step [OF Cons.prems, of x] Cons.IH [of "f x s"]
  show ?case by (auto intro: quiet_trans)
qed

lemma quiet_logs: "quiet ip a s t \<Longrightarrow> \<exists>l. logs t = logs s @ l"
  by (simp add: quiet_def)

lemma fold_processNew_logs:
  assumes "nodesByEgressIP s ip = Some a" "nd \<noteq> a" "ip \<in> set L"
  shows "\<exists>l. logs (fold (processNewEgressIP e nd) L s) = logs s @ l
           \<and> MultipleNodesClaiming ip (nodeIP (nodeObjs s ! nd)) (nodeIP (nodeObjs s ! a)) \<in> set l"
  using assms(1,3)
proof (induction L arbitrary: s)
  case Nil
  then show ?case by simp
next
  case (Cons x L)
  let ?f = "processNewEgressIP e nd"
  let ?m = "MultipleNodesClaiming ip (nodeIP (nodeObjs s ! nd)) (nodeIP (nodeObjs s ! a))"
  note o = processNew_other [OF Cons.prems(1) assms(2), of e x]
  have fo: "nodesByEgressIP (fold ?f L s') ip = Some a \<and> quiet ip a s' (fold ?f L s')"
    if "nodesByEgressIP s' ip = Some a" for s'
    by (rule fold_other [OF _ that]) (simp add: processNew_other assms(2))
  show ?case
  proof (cases "x = ip")
    case True
    then have st: "?f x s = glog ?m s"
      using Cons.prems(1) by (simp add: processNewEgressIP_def)
    from fo [OF o(1)] obtain l where "logs (fold ?f L (?f x s)) = logs (?f x s) @ l"
      using quiet_logs by blast
    then have "logs (fold ?f (x # L) s) = logs s @ (?m # l)" by (simp add: st)
    then show ?thesis by (metis list.set_intros(1))
  next
    case False
    then have "ip \<in> set L" using Cons.prems(2) by simp
    from Cons.IH [OF o(1) this] obtain l where
      l: "logs (fold ?f L (?f x s)) = logs (?f x s) @ l" "?m \<in> set l"
      by auto
    from quiet_logs [OF o(2)] obtain l0 where "logs (?f x s) = logs s @ l0" by blast
    then have "logs (fold ?f (x # L) s) = logs s @ (l0 @ l)" using l(1) by simp
    moreover have "?m \<in> set (l0 @ l)" using l(2) by simp
    ultimately show ?thesis by blast
  qed
qed

text \<open>The body of updateNodeEgress, for a node \<open>nd\<close> other than the claimant \<open>a\<close>.\<close>

lemma updateNodeEgress_body_other:
  fixes e :: env and ips :: "string list"
  assumes reg: "nodesByEgressIP s0 ip = Some a" and ne: "nd \<noteq> a"
    and lnd: "nd < length (nodeObjs s0)"
  defines "old \<equiv> requestedIPs (nodeObjs s0 ! nd)"
  defines "s1 \<equiv> updNode nd (\<lambda>n. n\<lparr>requestedIPs := NewString ips\<rparr>) s0"
  defines "s2 \<equiv> fold (processNewEgressIP e nd)
                   (UnsortedList (mapOrder e) (Difference (requestedIPs (nodeObjs s1 ! nd)) old)) s1"
  defines "s3 \<equiv> fold (processRemovedEgressIP e nd)
                   (UnsortedList (mapOrder e) (Difference old (requestedIPs (nodeObjs s2 ! nd)))) s2"
  shows "nodesByEgressIP s3 ip = Some a"
    and "quiet ip a s0 s3"
    and "ip \<in> set ips \<Longrightarrow> ip \<notin> set old \<Longrightarrow>
         \<exists>l. logs s3 = logs s0 @ l
           \<and> MultipleNodesClaiming ip (nodeIP (nodeObjs s0 ! nd)) (nodeIP (nodeObjs s0 ! a)) \<in> set l"
proof -
  have reg1: "nodesByEgressIP s1 ip = Some a" using reg by (simp add: s1_def)
  have q1: "quiet ip a s0 s1" using ne by (simp add: s1_def quiet_updNode)
  have f2: "nodesByEgressIP s2 ip = Some a \<and> quiet ip a s1 s2"
    unfolding s2_def by (rule fold_other [OF _ reg1]) (simp add: processNew_other ne)
  have f3: "nodesByEgressIP s3 ip = Some a \<and> quiet ip a s2 s3"
    unfolding s3_def by (rule fold_other) (simp_all add: processRemoved_other ne f2)
  show "nodesByEgressIP s3 ip = Some a" using f3 by simp
  show "quiet ip a s0 s3" using q1 f2 f3 by (blast intro: quiet_trans)
  show "\<exists>l. logs s3 = logs s0 @ l
           \<and> MultipleNodesClaiming ip (nodeIP (nodeObjs s0 ! nd)) (nodeIP (nodeObjs s0 ! a)) \<in> set l"
    if "ip \<in> set ips" "ip \<notin> set old"
  proof -
    have r1: "requestedIPs (nodeObjs s1 ! nd) = NewString ips" using lnd by (simp add: s1_def)
    have "ip \<in> set (UnsortedList (mapOrder e) (Difference (requestedIPs (nodeObjs s1 ! nd)) old))"
      using that by (simp add: r1)
    from fold_processNew_logs [OF reg1 ne this, of e, folded s2_def]
    obtain l where l: "logs s2 = logs s1 @ l"
      "MultipleNodesClaiming ip (nodeIP (nodeObjs s1 ! nd)) (nodeIP (nodeObjs s1 ! a)) \<in> set l"
      by blast
    from f3 obtain l' where l': "logs s3 = logs s2 @ l'" using quiet_logs by blast
    have "logs s3 = logs s0 @ (l @ l')" using l(1) l' by (simp add: s1_def)
    moreover have "MultipleNodesClaiming ip (nodeIP (nodeObjs s0 ! nd)) (nodeIP (nodeObjs s0 ! a))
        \<in> set (l @ l')"
      using l(2) by (simp add: s1_def updNode_requested_nth)
    ultimately show ?thesis by blast
  qed
qed

text \<open>
  C3. In a reachable state, let a node be registered for an egress IP, and let
  updateNodeEgress be called for a node of another IP. Then the first node is still the
  one registered for the egress IP, its object is unchanged, and no backend call of the
  update assigns the egress IP locally; and if the list of the update holds the egress IP
  and the second node did not request it before, the update logs that multiple nodes
  claim it. (nodesByEgressIP is a map: it holds at most one node for an IP.)
\<close>

theorem second_claim_rejected:
  assumes r: "reachable s"
    and reg: "nodesByEgressIP s ip = Some a" and other: "nodeIP (nodeObjs s ! a) \<noteq> nIP"
  shows "nodesByEgressIP (updateNodeEgress e s nIP ips) ip = Some a
       \<and> nodeObjs (updateNodeEgress e s nIP ips) ! a = nodeObjs s ! a
       \<and> (\<exists>cs. calls (updateNodeEgress e s nIP ips) = calls s @ cs
              \<and> list_all (\<lambda>c. \<not> assigns ip c) cs)
       \<and> (ip \<in> set ips
            \<and> (\<forall>nd. nodesByNodeIP s nIP = Some nd \<longrightarrow> ip \<notin> set (requestedIPs (nodeObjs s ! nd)))
          \<longrightarrow> (\<exists>l. logs (updateNodeEgress e s nIP ips) = logs s @ l
                 \<and> MultipleNodesClaiming ip nIP (nodeIP (nodeObjs s ! a)) \<in> set l))"
proof -
  note i = inv_D [OF reachable_inv [OF r]]
  have la: "a < length (nodeObjs s)" using i(1) reg by (rule ptr_okD)
  have ma: "nodesByNodeIP s (nodeIP (nodeObjs s ! a)) = Some a"
    using i(4) reg unfolding inv_claims_def by blast
  show ?thesis
  proof (cases "nodesByNodeIP s nIP")
    case None
    show ?thesis
    proof (cases "ips = []")
      case True
      then show ?thesis using None reg by (simp add: updateNodeEgress_def)
    next
      case False
      let ?nd = "length (nodeObjs s)"
      let ?s0 = "s\<lparr>nodeObjs := nodeObjs s @
                         [\<lparr>nodeIP = nIP, requestedIPs = NewString [], assignedIPs = NewString []\<rparr>],
                       nodesByNodeIP := (nodesByNodeIP s)(nIP \<mapsto> length (nodeObjs s))\<rparr>"
      have t: "updateNodeEgress e s nIP ips =
          fold (processRemovedEgressIP e ?nd)
            (UnsortedList (mapOrder e) (Difference (requestedIPs (nodeObjs ?s0 ! ?nd))
               (requestedIPs (nodeObjs (fold (processNewEgressIP e ?nd)
                   (UnsortedList (mapOrder e) (Difference
                      (requestedIPs (nodeObjs (updNode ?nd (\<lambda>n. n\<lparr>requestedIPs := NewString ips\<rparr>) ?s0) ! ?nd))
                      (requestedIPs (nodeObjs ?s0 ! ?nd))))
                   (updNode ?nd (\<lambda>n. n\<lparr>requestedIPs := NewString ips\<rparr>) ?s0)) ! ?nd))))
            (fold (processNewEgressIP e ?nd)
               (UnsortedList (mapOrder e) (Difference
                  (requestedIPs (nodeObjs (updNode ?nd (\<lambda>n. n\<lparr>requestedIPs := NewString ips\<rparr>) ?s0) ! ?nd))
                  (requestedIPs (nodeObjs ?s0 ! ?nd))))
               (updNode ?nd (\<lambda>n. n\<lparr>requestedIPs := NewString ips\<rparr>) ?s0))"
        using None False by (simp add: updateNodeEgress_def Let_def)
      have reg0: "nodesByEgressIP ?s0 ip = Some a" using reg by simp
      have ne: "?nd \<noteq> a" using la by simp
      have lnd: "?nd < length (nodeObjs ?s0)" by simp
      note b = updateNodeEgress_body_other [OF reg0 ne lnd, where e = e and ips = ips, folded t]
      have q: "quiet ip a s (updateNodeEgress e s nIP ips)"
        using b(2) la by (simp add: quiet_def nth_append)
      have lg: "\<exists>l. logs (updateNodeEgress e s nIP ips) = logs s @ l
                 \<and> MultipleNodesClaiming ip nIP (nodeIP (nodeObjs s ! a)) \<in> set l"
        if "ip \<in> set ips"
        using b(3) [OF that] la by (simp add: nth_append)
      show ?thesis using b(1) q lg by (auto simp add: quiet_def)
    qed
  next
    case (Some nd)
    let ?s0 = "if ips = [] then s\<lparr>nodesByNodeIP := (nodesByNodeIP s)(nIP := None)\<rparr> else s"
    have t: "updateNodeEgress e s nIP ips =
        fold (processRemovedEgressIP e nd)
          (UnsortedList (mapOrder e) (Difference (requestedIPs (nodeObjs ?s0 ! nd))
             (requestedIPs (nodeObjs (fold (processNewEgressIP e nd)
                 (UnsortedList (mapOrder e) (Difference
                    (requestedIPs (nodeObjs (updNode nd (\<lambda>n. n\<lparr>requestedIPs := NewString ips\<rparr>) ?s0) ! nd))
                    (requestedIPs (nodeObjs ?s0 ! nd))))
                 (updNode nd (\<lambda>n. n\<lparr>requestedIPs := NewString ips\<rparr>) ?s0)) ! nd))))
          (fold (processNewEgressIP e nd)
             (UnsortedList (mapOrder e) (Difference
                (requestedIPs (nodeObjs (updNode nd (\<lambda>n. n\<lparr>requestedIPs := NewString ips\<rparr>) ?s0) ! nd))
                (requestedIPs (nodeObjs ?s0 ! nd))))
             (updNode nd (\<lambda>n. n\<lparr>requestedIPs := NewString ips\<rparr>) ?s0))"
      using Some by (simp add: updateNodeEgress_def Let_def)
    have nip: "nodeIP (nodeObjs s ! nd) = nIP" using i(3) Some by (simp add: inv_nodes_def)
    have reg0: "nodesByEgressIP ?s0 ip = Some a" using reg by simp
    have ne: "nd \<noteq> a" using nip other by auto
    have lnd: "nd < length (nodeObjs ?s0)" using ptr_okD(1) [OF i(1) Some] by simp
    note b = updateNodeEgress_body_other [OF reg0 ne lnd, where e = e and ips = ips, folded t]
    have s0: "calls ?s0 = calls s" "logs ?s0 = logs s" "nodeObjs ?s0 = nodeObjs s"
      by simp_all
    have q: "quiet ip a s (updateNodeEgress e s nIP ips)"
      using b(2) unfolding quiet_def s0 .
    have lg: "\<exists>l. logs (updateNodeEgress e s nIP ips) = logs s @ l
               \<and> MultipleNodesClaiming ip nIP (nodeIP (nodeObjs s ! a)) \<in> set l"
      if "ip \<in> set ips" "ip \<notin> set (requestedIPs (nodeObjs s ! nd))"
      using b(3) [OF that(1)] that(2) nip unfolding s0 by simp
    show ?thesis using b(1) q lg Some by (auto simp add: quiet_def)
  qed
qed

lemma nodeA_claims_eval:
  "nodesByNodeIP nodeA_claims = [''10.0.0.1'' \<mapsto> 0]"
  "nodesByEgressIP nodeA_claims = [''10.0.0.5'' \<mapsto> 0]"
  "nodeObjs nodeA_claims =
     [\<lparr>nodeIP = ''10.0.0.1'', requestedIPs = [''10.0.0.5''], assignedIPs = []\<rparr>]"
  "calls nodeA_claims = []"
  "logs nodeA_claims = []"
  unfolding nodeA_claims_def by (simp_all add: eval_defs)

lemma reachable_nodeA_claims: "reachable nodeA_claims"
  unfolding nodeA_claims_def by (intro reachable.intros reachable_realWatcher)

theorem second_claim_rejected_witness:
  "reachable nodeA_claims
   \<and> nodesByEgressIP nodeA_claims ''10.0.0.5'' = Some 0
   \<and> nodeIP (nodeObjs nodeA_claims ! 0) = ''10.0.0.1''
   \<and> nodesByNodeIP nodeA_claims ''10.0.0.2'' = None
   \<and> nodesByEgressIP nodeB_rejected ''10.0.0.5'' = Some 0
   \<and> nodeObjs nodeB_rejected ! 0 = nodeObjs nodeA_claims ! 0
   \<and> (\<exists>cs. calls nodeB_rejected = calls nodeA_claims @ cs
          \<and> list_all (\<lambda>c. \<not> assigns ''10.0.0.5'' c) cs)
   \<and> (\<exists>l. logs nodeB_rejected = logs nodeA_claims @ l
          \<and> MultipleNodesClaiming ''10.0.0.5'' ''10.0.0.2'' ''10.0.0.1'' \<in> set l)"
proof -
  have h: "nodesByEgressIP nodeA_claims ''10.0.0.5'' = Some 0"
    "nodeIP (nodeObjs nodeA_claims ! 0) \<noteq> ''10.0.0.2''"
    by (simp_all add: nodeA_claims_eval)
  have n: "nodeIP (nodeObjs nodeA_claims ! 0) = ''10.0.0.1''"
    "nodesByNodeIP nodeA_claims ''10.0.0.2'' = None"
    by (simp_all add: nodeA_claims_eval)
  note t = second_claim_rejected [OF reachable_nodeA_claims h,
      where e = okEnv and ips = "[''10.0.0.5'']", folded nodeB_rejected_def]
  show ?thesis
    using t h(1) n reachable_nodeA_claims by simp
qed

section \<open>A node added again with another IP keeps its subnet (C9)\<close>

text \<open>
  C9. Let an Added event name a node of which the registry holds (and returns) a subnet
  with another node IP. Then watchNodes calls GetSubnet and DeleteSubnet and, unless the
  deletion fails, CreateSubnet with the event's IP and the old subnet's SubnetIP, and
  nothing else: the allocator is not called and its state is unchanged. If neither the
  deletion nor the creation fails, the registry then holds for the node the event's IP
  with the old SubnetIP, and is otherwise unchanged.
\<close>

theorem readded_node_keeps_subnet:
  assumes "ev_Type ev = ADDED"
    and "subnets oc (Name (ev_Node ev)) = Some sub"
    and "NodeIP sub \<noteq> IP (ev_Node ev)"
    and "\<not> registryFails e (GetSubnet (Name (ev_Node ev)))"
  shows "subnetAllocator (watchNodes e oc ev) = subnetAllocator oc
       \<and> master_calls (watchNodes e oc ev) = master_calls oc @
            GetSubnet (Name (ev_Node ev)) # DeleteSubnet (Name (ev_Node ev)) #
            (if registryFails e (DeleteSubnet (Name (ev_Node ev))) then []
             else [CreateSubnet (Name (ev_Node ev))
                     \<lparr>NodeIP = IP (ev_Node ev), SubnetIP = SubnetIP sub\<rparr>])
       \<and> subnets (watchNodes e oc ev) =
            (if registryFails e (DeleteSubnet (Name (ev_Node ev))) then subnets oc
             else if registryFails e (CreateSubnet (Name (ev_Node ev))
                        \<lparr>NodeIP = IP (ev_Node ev), SubnetIP = SubnetIP sub\<rparr>)
             then (subnets oc)(Name (ev_Node ev) := None)
             else (subnets oc)(Name (ev_Node ev) \<mapsto>
                        \<lparr>NodeIP = IP (ev_Node ev), SubnetIP = SubnetIP sub\<rparr>))"
proof -
  have s: "sub\<lparr>NodeIP := IP (ev_Node ev)\<rparr> = \<lparr>NodeIP = IP (ev_Node ev), SubnetIP = SubnetIP sub\<rparr>"
    by simp
  show ?thesis
    using assms
    by (simp add: watchNodes_def registry_GetSubnet_def registry_DeleteSubnet_def
        registry_CreateSubnet_def mcall_def mlog_def Let_def s)
qed

theorem readded_node_keeps_subnet_witness:
  "ev_Type node1_readded = ADDED
   \<and> subnets master1 (Name (ev_Node node1_readded))
       = Some \<lparr>NodeIP = ''192.168.0.1'', SubnetIP = ''10.1.2.0/24''\<rparr>
   \<and> IP (ev_Node node1_readded) = ''192.168.0.2''
   \<and> subnetAllocator (watchNodes okMasterEnv master1 node1_readded) = 3
   \<and> master_calls (watchNodes okMasterEnv master1 node1_readded)
       = [GetSubnet ''node1'', DeleteSubnet ''node1'',
          CreateSubnet ''node1'' \<lparr>NodeIP = ''192.168.0.2'', SubnetIP = ''10.1.2.0/24''\<rparr>]
   \<and> subnets (watchNodes okMasterEnv master1 node1_readded)
       = [''node1'' \<mapsto> \<lparr>NodeIP = ''192.168.0.2'', SubnetIP = ''10.1.2.0/24''\<rparr>]"
proof -
  have h: "ev_Type node1_readded = ADDED"
    "subnets master1 (Name (ev_Node node1_readded))
       = Some \<lparr>NodeIP = ''192.168.0.1'', SubnetIP = ''10.1.2.0/24''\<rparr>"
    "NodeIP \<lparr>NodeIP = ''192.168.0.1'', SubnetIP = ''10.1.2.0/24''\<rparr> \<noteq> IP (ev_Node node1_readded)"
    "\<not> registryFails okMasterEnv (GetSubnet (Name (ev_Node node1_readded)))"
    by (simp_all add: node1_readded_def master1_def okMasterEnv_def)
  have v: "IP (ev_Node node1_readded) = ''192.168.0.2''" "Name (ev_Node node1_readded) = ''node1''"
    "subnetAllocator master1 = 3" "master_calls master1 = []"
    "subnets master1 = [''node1'' \<mapsto> \<lparr>NodeIP = ''192.168.0.1'', SubnetIP = ''10.1.2.0/24''\<rparr>]"
    "\<And>c. registryFails okMasterEnv c = False"
    by (simp_all add: node1_readded_def master1_def okMasterEnv_def)
  show ?thesis
    using readded_node_keeps_subnet [OF h] h(1,2)
    by (simp add: v)
qed

section \<open>What deleteEgressIP does, in both revisions\<close>

























section \<open>The example states of the withdrawn claim and of the earlier revision\<close>









section \<open>A node withdraws an IP that a namespace still requests (C7)\<close>













section \<open>An empty list of egress IPs (C10)\<close>














end
